theory Spec2Isabelle
  imports Complex_Main "HOL-Library.Word"
begin

unbundle bit_operations_syntax

section \<open>C strings and the C library calls the sources make\<close>

text \<open>
  A C string is modelled by the bytes in front of its terminating NUL; the bulk strings
  that hiredis hands over are binary safe (they may hold NUL bytes) and carry their
  length beside them, and hiredis always writes a NUL after the last byte. Reading a
  string at its end therefore yields NUL, which is what \<open>peek\<close> returns on the empty
  list.
\<close>

definition NUL :: char where
  "NUL = CHR 0x00"

definition peek :: "string \<Rightarrow> char" where
  "peek s = (case s of [] \<Rightarrow> NUL | c # _ \<Rightarrow> c)"

text \<open>\<open>tolower\<close> of the C locale: only the ASCII capitals change.\<close>

definition tolower :: "char \<Rightarrow> char" where
  "tolower c = (if 65 \<le> (of_char c :: nat) \<and> (of_char c :: nat) \<le> 90
                then char_of ((of_char c :: nat) + 32) else c)"

text \<open>
  \<open>strncmp\<close> and \<open>strncasecmp\<close>: compare at most \<open>n\<close> bytes, as unsigned chars, and
  stop behind a NUL that both strings share.
\<close>

fun strncmp :: "string \<Rightarrow> string \<Rightarrow> nat \<Rightarrow> int" where
  "strncmp a b 0 = 0"
| "strncmp a b (Suc n) =
     (if peek a \<noteq> peek b then int (of_char (peek a)) - int (of_char (peek b))
      else if peek a = NUL then 0
      else strncmp (tl a) (tl b) n)"

fun strncasecmp :: "string \<Rightarrow> string \<Rightarrow> nat \<Rightarrow> int" where
  "strncasecmp a b 0 = 0"
| "strncasecmp a b (Suc n) =
     (if tolower (peek a) \<noteq> tolower (peek b)
      then int (of_char (tolower (peek a))) - int (of_char (tolower (peek b)))
      else if peek a = NUL then 0
      else strncasecmp (tl a) (tl b) n)"

text \<open>\<open>strndup s n\<close> copies at most \<open>n\<close> bytes and stops in front of the first NUL.\<close>

definition strndup :: "string \<Rightarrow> nat \<Rightarrow> string" where
  "strndup s n = takeWhile (\<lambda>c. c \<noteq> NUL) (take n s)"

text \<open>The C string a byte sequence denotes: what is in front of its first NUL.\<close>

definition cstr :: "string \<Rightarrow> string" where
  "cstr s = takeWhile (\<lambda>c. c \<noteq> NUL) s"

text \<open>Decimal text of a number, as \<open>%d\<close>, \<open>%zu\<close> and \<open>%lld\<close> print it.\<close>

definition digit :: "nat \<Rightarrow> char" where
  "digit d = char_of (48 + d)"

function dec :: "nat \<Rightarrow> string" where
  "dec n = (if n < 10 then [digit n] else dec (n div 10) @ [digit (n mod 10)])"
  by pat_completeness auto
termination
  by (relation "measure id") auto

declare dec.simps [simp del]

definition lld :: "64 word \<Rightarrow> string" where
  "lld w = (if sint w < 0 then CHR ''-'' # dec (nat (- sint w)) else dec (nat (sint w)))"

text \<open>
  The allocator. Every \<open>malloc\<close>, \<open>calloc\<close>, \<open>realloc\<close> and \<open>strndup\<close> of the sources
  asks the heap, which answers from a list of outcomes (\<open>False\<close>: the call returns
  NULL); when the list is used up every later call succeeds, so the heap \<open>[]\<close> is the
  run in which no allocation fails.
\<close>

type_synonym heap = "bool list"

definition alloc :: "heap \<Rightarrow> bool \<times> heap" where
  "alloc h = (case h of [] \<Rightarrow> (True, []) | ok # h' \<Rightarrow> (ok, h'))"

section \<open>Replies of the hiredis reader\<close>

text \<open>
  hiredis is not part of the repository; its \<open>redisReply\<close> is modelled by what the
  reader builds. A reply is allocated zeroed and then given its type and payload, so
  \<open>str\<close> is NULL (here \<open>None\<close>) unless the reply is a string, status or error,
  \<open>integer\<close> is 0 unless it is an integer, and \<open>elements\<close> is 0 unless it is an
  array.
\<close>

datatype redisReply =
    REDIS_REPLY_STRING string
  | REDIS_REPLY_ARRAY "redisReply list"
  | REDIS_REPLY_INTEGER "64 word"
  | REDIS_REPLY_NIL
  | REDIS_REPLY_STATUS string
  | REDIS_REPLY_ERROR string

fun str :: "redisReply \<Rightarrow> string option" where
  "str (REDIS_REPLY_STRING s) = Some s"
| "str (REDIS_REPLY_STATUS s) = Some s"
| "str (REDIS_REPLY_ERROR s) = Some s"
| "str _ = None"

fun integer :: "redisReply \<Rightarrow> 64 word" where
  "integer (REDIS_REPLY_INTEGER i) = i"
| "integer _ = 0"

fun element :: "redisReply \<Rightarrow> redisReply list" where
  "element (REDIS_REPLY_ARRAY es) = es"
| "element _ = []"

definition elements :: "redisReply \<Rightarrow> nat" where
  "elements r = length (element r)"

text \<open>
  The wire format of one command, as \<open>redisFormatCommandArgv\<close> writes it: the array
  header with the number of arguments, then every argument as a bulk string.
\<close>

definition crlf :: string where
  "crlf = [CHR 0x0D, CHR 0x0A]"

definition bulk :: "string \<Rightarrow> string" where
  "bulk a = CHR ''$'' # dec (length a) @ crlf @ a @ crlf"

definition redisFormatCommandArgv :: "string list \<Rightarrow> string" where
  "redisFormatCommandArgv argv = CHR ''*'' # dec (length argv) @ crlf @ concat (map bulk argv)"

section \<open>Classification (cmdhash.c)\<close>

datatype cmdType = TYPE_ZINCRBY | TYPE_SADD | TYPE_UNSUPPORTED

text \<open>
  \<open>__get_type\<close>. The name is compared with \<open>strncasecmp\<close> over \<open>sizeof\<close> of the
  literal, which counts the literal's NUL: 8 bytes for ZINCRBY, 5 for SADD. The name is
  read only when the element count passes, and reading a name that is no string
  dereferences NULL (\<open>None\<close>).
\<close>

definition name_is :: "redisReply \<Rightarrow> string \<Rightarrow> bool option" where
  "name_is r lit = (case element r of
       [] \<Rightarrow> None
     | e # _ \<Rightarrow> (case str e of
           None \<Rightarrow> None
         | Some s \<Rightarrow> Some (strncasecmp s lit (Suc (length lit)) = 0)))"

definition get_type :: "redisReply \<Rightarrow> cmdType option" where
  "get_type r =
     (case (if elements r = 4 then name_is r ''ZINCRBY'' else Some False) of
        None \<Rightarrow> None
      | Some True \<Rightarrow> Some TYPE_ZINCRBY
      | Some False \<Rightarrow>
          (case (if elements r > 2 then name_is r ''SADD'' else Some False) of
             None \<Rightarrow> None
           | Some True \<Rightarrow> Some TYPE_SADD
           | Some False \<Rightarrow> Some TYPE_UNSUPPORTED))"

section \<open>The pass-through buffer (buffer.c)\<close>

definition INITIAL_ALLOC :: nat where
  "INITIAL_ALLOC = 32768"

definition BUF_MAX_PREALLOC :: nat where
  "BUF_MAX_PREALLOC = 1024 * 1024"

text \<open>
  \<open>cmdBuffer\<close>: \<open>buf\<close> holds the bytes written so far (the first \<open>pos\<close> bytes of the
  storage), \<open>bsize\<close> is the field \<open>size\<close>, the allocated capacity.
\<close>

record cmdBuffer =
  buf :: string
  bsize :: nat
  pos :: nat
  cmd_count :: "32 word"

definition cmdBufferCreate :: "heap \<Rightarrow> cmdBuffer option \<times> heap" where
  "cmdBufferCreate h =
     (case alloc h of
        (False, h1) \<Rightarrow> (None, h1)
      | (True, h1) \<Rightarrow>
          (case alloc h1 of
             (False, h2) \<Rightarrow> (None, h2)
           | (True, h2) \<Rightarrow>
               (Some \<lparr>buf = [], bsize = INITIAL_ALLOC, pos = 0, cmd_count = 0\<rparr>, h2)))"

definition cmdBufferGrow :: "heap \<Rightarrow> cmdBuffer \<Rightarrow> nat \<Rightarrow> int \<times> cmdBuffer \<times> heap" where
  "cmdBufferGrow h buffer addlen =
     (let newlen = pos buffer + addlen;
          newlen' = (if newlen < BUF_MAX_PREALLOC then newlen * 2 else newlen + BUF_MAX_PREALLOC)
      in case alloc h of
           (False, h1) \<Rightarrow> (- 1, buffer, h1)
         | (True, h1) \<Rightarrow> (0, buffer\<lparr>bsize := newlen'\<rparr>, h1))"

text \<open>\<open>cmdBufferAppend\<close>; the length passed is always the length of the bytes passed.\<close>

definition cmdBufferAppend ::
    "heap \<Rightarrow> cmdBuffer \<Rightarrow> string \<Rightarrow> 32 word \<Rightarrow> int \<times> cmdBuffer \<times> heap" where
  "cmdBufferAppend h buffer s n =
     (case (if pos buffer + length s > bsize buffer then cmdBufferGrow h buffer (length s)
            else (0, buffer, h)) of
        (rc, b1, h1) \<Rightarrow>
          if rc \<noteq> 0 then (- 1, b1, h1)
          else (0, b1\<lparr>buf := buf b1 @ s, pos := pos b1 + length s,
                       cmd_count := cmd_count b1 + n\<rparr>, h1))"

text \<open>
  The argument vector \<open>cmdBufferAddReply\<close> builds. The switch has a case for strings and
  one for integers, and the integer case prints \<open>reply->integer\<close>, the field of the
  reply that holds the elements. An element of any other type leaves its slot of
  \<open>argv\<close> uninitialised (\<open>None\<close>).
\<close>

fun argv_slot :: "redisReply \<Rightarrow> redisReply \<Rightarrow> string option" where
  "argv_slot reply (REDIS_REPLY_STRING s) = Some s"
| "argv_slot reply (REDIS_REPLY_INTEGER i) = Some (lld (integer reply))"
| "argv_slot reply _ = None"

text \<open>
  \<open>cmdBufferAddReply\<close>. \<open>None\<close> is undefined behaviour: an uninitialised \<open>argv\<close>
  slot, or a failure of \<open>redisFormatCommandArgv\<close>, whose - 1 the unsigned \<open>len\<close>
  cannot show, so that the unset \<open>cmd\<close> is appended.
\<close>

definition cmdBufferAddReply ::
    "heap \<Rightarrow> cmdBuffer \<Rightarrow> redisReply \<Rightarrow> (int \<times> cmdBuffer \<times> heap) option" where
  "cmdBufferAddReply h buffer reply =
     (case alloc h of
        (False, h1) \<Rightarrow> Some (- 1, buffer, h1)
      | (True, h1) \<Rightarrow>
          (case those (map (argv_slot reply) (element reply)) of
             None \<Rightarrow> None
           | Some argv \<Rightarrow>
               (case alloc h1 of
                  (False, h2) \<Rightarrow> None
                | (True, h2) \<Rightarrow>
                    Some (cmdBufferAppend h2 buffer (redisFormatCommandArgv argv) 1))))"

section \<open>The aggregation engine (cmdhash.h, cmdhash.c)\<close>

definition BUF_INIT_ALLOC :: nat where
  "BUF_INIT_ALLOC = 32768"

text \<open>
  A \<open>double\<close> is modelled by its 64 bits (IEEE 754 binary64 on the machines the
  program is built for). The C library's \<open>strtod\<close>, the addition of two doubles and
  the \<open>%f\<close> conversion of \<open>printf\<close> are not part of the repository: the model takes
  them as parameters, and says nothing of its own about rounding, infinities and NaN.
\<close>

record libc =
  strtod :: "string \<Rightarrow> 64 word"
  dadd :: "64 word \<Rightarrow> 64 word \<Rightarrow> 64 word"
  fmt_f :: "64 word \<Rightarrow> string"

text \<open>
  \<open>cmdMemberList\<close>, \<open>cmdKeyList\<close>, \<open>cmdHashContainer\<close> and \<open>cmdHash\<close>. A chain of
  nodes linked by \<open>next\<close> is a list, and a bucket array is a list of chains; the NULL
  member table of a key that has no member yet is the empty list of chains. The fields
  \<open>len\<close> are \<open>mlen\<close> and \<open>klen\<close>, the member table of a key is \<open>mbucket\<close>, and
  \<open>_buf\<close>, \<open>_size\<close>, \<open>_len\<close> are \<open>h_buf\<close>, \<open>h_size\<close>, \<open>h_len\<close>.

  In a member node \<open>score\<close> (a \<open>double\<close>) and \<open>hits\<close> (an \<open>unsigned int\<close>) are the
  two members of a union: they lie at the same address. The record keeps the 8 bytes of
  the union as the 64 bits of \<open>score\<close>. On a little-endian machine the 4 bytes of
  \<open>hits\<close> are the low 32 bits of these, so \<open>item->hits++\<close> adds 1 to the low half,
  modulo \<open>2^32\<close>, and leaves the high half.

  \<open>str_len\<close> is never initialised (\<open>__container_create\<close> uses \<open>malloc\<close>), so its
  value is indeterminate: \<open>None\<close>. \<open>corrupt\<close> is no field of the source: it records
  that a failed \<open>strndup\<close> left a freed key node, or a member node without its member,
  linked in a chain, after which walking the chains is undefined behaviour.
\<close>

record cmdMemberList =
  member :: string
  mlen :: nat
  score :: "64 word"

definition hits :: "cmdMemberList \<Rightarrow> 32 word" where
  "hits item = ucast (score item)"

definition hits_incr :: "cmdMemberList \<Rightarrow> cmdMemberList" where
  "hits_incr item = item\<lparr>score := (score item AND NOT (mask 32)) OR ucast (hits item + 1)\<rparr>"

record cmdKeyList =
  key :: string
  klen :: nat
  count :: "32 word"
  mbucket :: "cmdMemberList list list"

record cmdHashContainer =
  ksize :: nat
  msize :: nat
  keys :: "32 word"
  members :: "32 word"
  str_len :: "32 word option"
  bucket :: "cmdKeyList list list"
  corrupt :: bool

record cmdHash =
  s_cmds :: cmdHashContainer
  z_cmds :: cmdHashContainer
  h_buf :: "string option"
  h_size :: nat
  h_len :: nat

definition flush_buffer :: "cmdHash \<Rightarrow> cmdHash" where
  "flush_buffer ht = (if h_buf ht \<noteq> None then ht\<lparr>h_buf := None, h_size := 0, h_len := 0\<rparr> else ht)"

definition container_create :: "heap \<Rightarrow> nat \<Rightarrow> nat \<Rightarrow> cmdHashContainer option \<times> heap" where
  "container_create h ks ms =
     (case alloc h of
        (False, h1) \<Rightarrow> (None, h1)
      | (True, h1) \<Rightarrow>
          (case alloc h1 of
             (False, h2) \<Rightarrow> (None, h2)
           | (True, h2) \<Rightarrow>
               (Some \<lparr>ksize = ks, msize = ms, keys = 0, members = 0, str_len = None,
                       bucket = replicate ks [], corrupt = False\<rparr>, h2)))"

text \<open>
  \<open>djb2\<close> accumulates in an \<open>unsigned long\<close> and returns \<open>int\<close>; \<open>GET_BUCKET\<close> takes
  the result modulo an \<open>unsigned int\<close>, which converts the \<open>int\<close> to 32 bits unsigned.
\<close>

definition djb2 :: "string \<Rightarrow> 32 word" where
  "djb2 s = ucast (fold (\<lambda>c hash. (push_bit 5 hash + hash) + of_nat (of_char c)) s (5381 :: 64 word))"

definition GET_BUCKET :: "string \<Rightarrow> nat \<Rightarrow> nat" where
  "GET_BUCKET s n = unat (djb2 s) mod n"

definition cmdHashCreate :: "heap \<Rightarrow> nat \<Rightarrow> nat \<Rightarrow> cmdHash option \<times> heap" where
  "cmdHashCreate h ks ms =
     (if ks < 1 \<or> ms < 1 then (None, h)
      else case alloc h of
        (False, h1) \<Rightarrow> (None, h1)
      | (True, h1) \<Rightarrow>
          (case container_create h1 ks ms of
             (None, h2) \<Rightarrow> (None, h2)
           | (Some s, h2) \<Rightarrow>
               (case container_create h2 ks ms of
                  (None, h3) \<Rightarrow> (None, h3)
                | (Some z, h3) \<Rightarrow>
                    (Some \<lparr>s_cmds = s, z_cmds = z, h_buf = None, h_size = 0, h_len = 0\<rparr>, h3))))"

text \<open>The two loops that walk a chain: the position of the first node that matches.\<close>

fun scan_members :: "cmdMemberList list \<Rightarrow> string \<Rightarrow> nat option" where
  "scan_members [] m = None"
| "scan_members (item # rest) m =
     (if length m = mlen item \<and> strncmp m (member item) (length m) = 0 then Some 0
      else map_option Suc (scan_members rest m))"

fun scan_keys :: "cmdKeyList list \<Rightarrow> string \<Rightarrow> nat option" where
  "scan_keys [] k = None"
| "scan_keys (node # rest) k =
     (if klen node = length k \<and> strncmp (key node) k (length k) = 0 then Some 0
      else map_option Suc (scan_keys rest k))"

text \<open>
  \<open>__find_member\<close>. The key node is passed and returned by value; the result is the
  place of the member node (bucket and position in the chain), \<open>None\<close> for NULL. A
  new node is zeroed by \<open>calloc\<close>; a lookup that finds its member increments
  \<open>hits\<close>, whichever container the node is in.
\<close>

definition find_member ::
    "heap \<Rightarrow> cmdHashContainer \<Rightarrow> cmdKeyList \<Rightarrow> string
       \<Rightarrow> (nat \<times> nat) option \<times> cmdHashContainer \<times> cmdKeyList \<times> heap" where
  "find_member h c k m =
     (let num = GET_BUCKET m (msize c) in
      case (if mbucket k = [] then alloc h else (True, h)) of
        (False, h0) \<Rightarrow> (None, c, k, h0)
      | (True, h0) \<Rightarrow>
          (let k0 = (if mbucket k = [] then k\<lparr>mbucket := replicate (msize c) []\<rparr> else k);
               chain = mbucket k0 ! num
           in case scan_members chain m of
                Some j \<Rightarrow>
                  (Some (num, j), c,
                   k0\<lparr>mbucket := (mbucket k0)[num := chain[j := hits_incr (chain ! j)]]\<rparr>,
                   h0)
              | None \<Rightarrow>
                  (case alloc h0 of
                     (False, h1) \<Rightarrow> (None, c, k0, h1)
                   | (True, h1) \<Rightarrow>
                       (case alloc h1 of
                          (False, h2) \<Rightarrow>
                            (None, c\<lparr>corrupt := True\<rparr>,
                             k0\<lparr>mbucket := (mbucket k0)[num := chain @
                                   [\<lparr>member = [], mlen = 0, score = 0\<rparr>]]\<rparr>, h2)
                        | (True, h2) \<Rightarrow>
                            (Some (num, length chain),
                             c\<lparr>str_len := map_option (\<lambda>n. n + of_nat (length m)) (str_len c),
                               members := members c + 1\<rparr>,
                             k0\<lparr>count := count k0 + 1,
                                mbucket := (mbucket k0)[num := chain @
                                   [\<lparr>member = strndup m (length m), mlen = length m,
                                     score = 0\<rparr>]]\<rparr>,
                             h2)))))"

text \<open>\<open>__find_key\<close>; the result is the place of the key node.\<close>

definition find_key ::
    "heap \<Rightarrow> cmdHashContainer \<Rightarrow> string \<Rightarrow> (nat \<times> nat) option \<times> cmdHashContainer \<times> heap" where
  "find_key h c k =
     (let num = GET_BUCKET k (ksize c); chain = bucket c ! num in
      case scan_keys chain k of
        Some i \<Rightarrow> (Some (num, i), c, h)
      | None \<Rightarrow>
          (case alloc h of
             (False, h1) \<Rightarrow> (None, c, h1)
           | (True, h1) \<Rightarrow>
               (case alloc h1 of
                  (False, h2) \<Rightarrow> (None, c\<lparr>corrupt := True\<rparr>, h2)
                | (True, h2) \<Rightarrow>
                    (Some (num, length chain),
                     c\<lparr>keys := keys c + 1,
                       bucket := (bucket c)[num := chain @
                          [\<lparr>key = strndup k (length k), klen = length k, count = 0, mbucket = []\<rparr>]]\<rparr>,
                     h2))))"

text \<open>Reading and writing the key node a pointer refers to.\<close>

definition load_key :: "cmdHashContainer \<Rightarrow> nat \<times> nat \<Rightarrow> cmdKeyList" where
  "load_key c p = bucket c ! fst p ! snd p"

definition store_key :: "cmdHashContainer \<Rightarrow> nat \<times> nat \<Rightarrow> cmdKeyList \<Rightarrow> cmdHashContainer" where
  "store_key c p k = c\<lparr>bucket := (bucket c)[fst p := (bucket c ! fst p)[snd p := k]]\<rparr>"

text \<open>\<open>m->score += d\<close>, for the member node at a place of a key node.\<close>

definition add_score :: "libc \<Rightarrow> cmdKeyList \<Rightarrow> nat \<times> nat \<Rightarrow> 64 word \<Rightarrow> cmdKeyList" where
  "add_score L k p d =
     k\<lparr>mbucket := (mbucket k)[fst p := (mbucket k ! fst p)[snd p :=
          (mbucket k ! fst p ! snd p)\<lparr>score := dadd L (score (mbucket k ! fst p ! snd p)) d\<rparr>]]\<rparr>"

text \<open>
  \<open>__hash_zincrby_cmd\<close> and \<open>__hash_sadd_cmd\<close>; the result is the return value with the
  engine and the heap afterwards. \<open>None\<close> is undefined behaviour: the \<open>str\<close> of an
  element that is no string is NULL, and a corrupt container holds a node that must
  not be read.
\<close>

definition hash_zincrby_cmd ::
    "libc \<Rightarrow> heap \<Rightarrow> cmdHash \<Rightarrow> redisReply \<Rightarrow> (int \<times> cmdHash \<times> heap) option" where
  "hash_zincrby_cmd L h ht r =
     (case element r of
        [e0, e1, e2, e3] \<Rightarrow>
          (case (str e1, str e2, str e3) of
             (Some k, Some d, Some m) \<Rightarrow>
               if corrupt (z_cmds ht) then None
               else (case find_key h (z_cmds ht) k of
                  (None, c1, h1) \<Rightarrow> Some (- 1, ht\<lparr>z_cmds := c1\<rparr>, h1)
                | (Some p, c1, h1) \<Rightarrow>
                    (case find_member h1 c1 (load_key c1 p) m of
                       (None, c2, k2, h2) \<Rightarrow> Some (- 1, ht\<lparr>z_cmds := store_key c2 p k2\<rparr>, h2)
                     | (Some q, c2, k2, h2) \<Rightarrow>
                         Some (0, ht\<lparr>z_cmds := store_key c2 p (add_score L k2 q (strtod L d))\<rparr>, h2)))
           | _ \<Rightarrow> None)
      | _ \<Rightarrow> None)"

fun sadd_members ::
    "heap \<Rightarrow> cmdHashContainer \<Rightarrow> nat \<times> nat \<Rightarrow> redisReply list
       \<Rightarrow> (int \<times> cmdHashContainer \<times> heap) option" where
  "sadd_members h c p [] = Some (0, c, h)"
| "sadd_members h c p (e # es) =
     (case str e of
        None \<Rightarrow> None
      | Some m \<Rightarrow>
          (case find_member h c (load_key c p) m of
             (None, c1, k1, h1) \<Rightarrow> Some (- 1, store_key c1 p k1, h1)
           | (Some q, c1, k1, h1) \<Rightarrow> sadd_members h1 (store_key c1 p k1) p es))"

definition hash_sadd_cmd ::
    "heap \<Rightarrow> cmdHash \<Rightarrow> redisReply \<Rightarrow> (int \<times> cmdHash \<times> heap) option" where
  "hash_sadd_cmd h ht r =
     (case element r of
        e0 # e1 # es \<Rightarrow>
          (case str e1 of
             None \<Rightarrow> None
           | Some k \<Rightarrow>
               if corrupt (s_cmds ht) then None
               else (case find_key h (s_cmds ht) k of
                  (None, c1, h1) \<Rightarrow> Some (- 1, ht\<lparr>s_cmds := c1\<rparr>, h1)
                | (Some p, c1, h1) \<Rightarrow>
                    (case sadd_members h1 c1 p es of
                       None \<Rightarrow> None
                     | Some (rc, c2, h2) \<Rightarrow> Some (rc, ht\<lparr>s_cmds := c2\<rparr>, h2))))
      | _ \<Rightarrow> None)"

text \<open>The value of an enumerator of \<open>cmdType\<close> as an \<open>int\<close>.\<close>

fun cmdType_int :: "cmdType \<Rightarrow> int" where
  "cmdType_int TYPE_ZINCRBY = 0"
| "cmdType_int TYPE_SADD = 1"
| "cmdType_int TYPE_UNSUPPORTED = 2"

definition cmdHashAdd ::
    "libc \<Rightarrow> heap \<Rightarrow> cmdHash \<Rightarrow> redisReply \<Rightarrow> (int \<times> cmdHash \<times> heap) option" where
  "cmdHashAdd L h ht r =
     (case get_type r of
        None \<Rightarrow> None
      | Some TYPE_ZINCRBY \<Rightarrow> hash_zincrby_cmd L h ht r
      | Some TYPE_SADD \<Rightarrow> hash_sadd_cmd h ht r
      | Some TYPE_UNSUPPORTED \<Rightarrow> Some (cmdType_int TYPE_UNSUPPORTED, ht, h))"

subsection \<open>Writing the aggregated commands\<close>

definition realloc_buffer :: "heap \<Rightarrow> cmdHash \<Rightarrow> nat \<Rightarrow> int \<times> cmdHash \<times> heap" where
  "realloc_buffer h ht addlen =
     (let newlen = h_len ht + addlen;
          newlen' = (if newlen < BUF_MAX_PREALLOC then newlen * 2 else newlen + BUF_MAX_PREALLOC)
      in case alloc h of
           (False, h1) \<Rightarrow> (- 1, ht, h1)
         | (True, h1) \<Rightarrow> (0, ht\<lparr>h_size := newlen'\<rparr>, h1))"

text \<open>
  \<open>__append_buffer\<close>. \<open>h_buf\<close> holds the first \<open>h_len\<close> bytes of \<open>_buf\<close>; a NULL
  \<open>_buf\<close> holds no bytes, and \<open>realloc\<close> turns it into storage.
\<close>

definition contents :: "string option \<Rightarrow> string" where
  "contents b = (case b of None \<Rightarrow> [] | Some s \<Rightarrow> s)"

definition append_buffer :: "heap \<Rightarrow> cmdHash \<Rightarrow> string \<Rightarrow> int \<times> cmdHash \<times> heap" where
  "append_buffer h ht s =
     (case (if h_len ht + length s > h_size ht then realloc_buffer h ht (length s)
            else (0, ht, h)) of
        (rc, ht1, h1) \<Rightarrow>
          if rc \<noteq> 0 then (- 1, ht1, h1)
          else (0, ht1\<lparr>h_buf := Some (contents (h_buf ht1) @ s),
                        h_len := h_len ht1 + length s\<rparr>, h1))"

text \<open>
  The members of one key, in the order of the loops over \<open>key->bucket[i]\<close>, \<open>i\<close> from 0
  to \<open>msize - 1\<close>, and along each chain. A key whose table is NULL, or is not \<open>msize\<close>
  long, cannot be walked.
\<close>

definition members_of :: "cmdHashContainer \<Rightarrow> cmdKeyList \<Rightarrow> cmdMemberList list option" where
  "members_of c k = (if length (mbucket k) = msize c then Some (concat (mbucket k)) else None)"

text \<open>
  \<open>%b\<close> and \<open>redisFormatCommandArgv\<close> copy \<open>len\<close> bytes from the stored copy of a key
  or member. \<open>strndup\<close> made that copy, so it is shorter than \<open>len\<close> when the original
  held a NUL byte, and the copy then reads behind its end.
\<close>

definition readable_key :: "cmdKeyList \<Rightarrow> bool" where
  "readable_key k = (length (key k) = klen k)"

definition readable_member :: "cmdMemberList \<Rightarrow> bool" where
  "readable_member m = (length (member m) = mlen m)"

text \<open>
  The inner loop of \<open>__append_zincrby_key_cmds\<close>, one ZINCRBY command per member.
  \<open>redisFormatCommand\<close> allocates the command; when that fails its - 1 is stored in the
  unsigned \<open>len\<close> and the unset \<open>cmd\<close> is copied (\<open>None\<close>).
\<close>

fun append_zincrby_members ::
    "libc \<Rightarrow> heap \<Rightarrow> cmdHash \<Rightarrow> cmdKeyList \<Rightarrow> cmdMemberList list
       \<Rightarrow> (int \<times> cmdHash \<times> heap) option" where
  "append_zincrby_members L h ht k [] = Some (0, ht, h)"
| "append_zincrby_members L h ht k (mem # rest) =
     (if \<not> readable_key k \<or> \<not> readable_member mem then None
      else case alloc h of
        (False, h1) \<Rightarrow> None
      | (True, h1) \<Rightarrow>
          (let cmd = redisFormatCommandArgv [''ZINCRBY'', key k, fmt_f L (score mem), member mem];
               ovr = h_len ht + length cmd > h_size ht
           in case (if ovr then realloc_buffer h1 ht (length cmd) else (0, ht, h1)) of
                (rc, ht1, h2) \<Rightarrow>
                  if rc < 0 then Some (- 1, flush_buffer ht1, h2)
                  else (case append_buffer h2 ht1 cmd of
                          (rc', ht2, h3) \<Rightarrow> append_zincrby_members L h3 ht2 k rest)))"

definition append_zincrby_key_cmds ::
    "libc \<Rightarrow> heap \<Rightarrow> cmdHash \<Rightarrow> cmdKeyList \<Rightarrow> (int \<times> cmdHash \<times> heap) option" where
  "append_zincrby_key_cmds L h ht k =
     (case members_of (z_cmds ht) k of
        None \<Rightarrow> None
      | Some ms \<Rightarrow> append_zincrby_members L h ht k ms)"

text \<open>The keys of a container in the order of the loops over its buckets and chains.\<close>

definition keys_of :: "cmdHashContainer \<Rightarrow> cmdKeyList list option" where
  "keys_of c = (if length (bucket c) = ksize c \<and> \<not> corrupt c then Some (concat (bucket c)) else None)"

fun append_zincrby_keys ::
    "libc \<Rightarrow> heap \<Rightarrow> cmdHash \<Rightarrow> cmdKeyList list \<Rightarrow> (int \<times> cmdHash \<times> heap) option" where
  "append_zincrby_keys L h ht [] = Some (0, ht, h)"
| "append_zincrby_keys L h ht (k # ks) =
     (case append_zincrby_key_cmds L h ht k of
        None \<Rightarrow> None
      | Some (rc, ht1, h1) \<Rightarrow>
          if rc < 0 then Some (- 1, ht1, h1) else append_zincrby_keys L h1 ht1 ks)"

definition append_zincrby_cmds ::
    "libc \<Rightarrow> heap \<Rightarrow> cmdHash \<Rightarrow> (int \<times> cmdHash \<times> heap) option" where
  "append_zincrby_cmds L h ht =
     (case keys_of (z_cmds ht) of
        None \<Rightarrow> None
      | Some ks \<Rightarrow> append_zincrby_keys L h ht ks)"

text \<open>
  \<open>__append_sadd_key_cmd\<close>: one SADD command with all the members of the key. The two
  arrays have \<open>count + 2\<close> slots, so the walk fills them exactly when the key has
  \<open>count\<close> members. When \<open>redisFormatCommandArgv\<close> fails, \<open>cmd\<close> is still NULL and
  the function returns - 1.
\<close>

definition append_sadd_key_cmd ::
    "heap \<Rightarrow> cmdHash \<Rightarrow> cmdKeyList \<Rightarrow> (int \<times> cmdHash \<times> heap) option" where
  "append_sadd_key_cmd h ht k =
     (case alloc h of
        (False, h1) \<Rightarrow> Some (- 1, ht, h1)
      | (True, h1) \<Rightarrow>
          (case alloc h1 of
             (False, h2) \<Rightarrow> Some (- 1, ht, h2)
           | (True, h2) \<Rightarrow>
               (case members_of (s_cmds ht) k of
                  None \<Rightarrow> None
                | Some ms \<Rightarrow>
                    if length ms \<noteq> unat (count k) \<or> \<not> readable_key k
                       \<or> \<not> list_all readable_member ms then None
                    else (case alloc h2 of
                       (False, h3) \<Rightarrow> Some (- 1, ht, h3)
                     | (True, h3) \<Rightarrow>
                         Some (append_buffer h3 ht
                                 (redisFormatCommandArgv (''SADD'' # key k # map member ms)))))))"

fun append_sadd_keys ::
    "heap \<Rightarrow> cmdHash \<Rightarrow> cmdKeyList list \<Rightarrow> (int \<times> cmdHash \<times> heap) option" where
  "append_sadd_keys h ht [] = Some (0, ht, h)"
| "append_sadd_keys h ht (k # ks) =
     (case append_sadd_key_cmd h ht k of
        None \<Rightarrow> None
      | Some (rc, ht1, h1) \<Rightarrow>
          if rc < 0 then Some (- 1, ht1, h1) else append_sadd_keys h1 ht1 ks)"

definition append_sadd_cmds :: "heap \<Rightarrow> cmdHash \<Rightarrow> (int \<times> cmdHash \<times> heap) option" where
  "append_sadd_cmds h ht =
     (case keys_of (s_cmds ht) of
        None \<Rightarrow> None
      | Some ks \<Rightarrow> append_sadd_keys h ht ks)"

text \<open>
  \<open>cmdHashGetCommands\<close>. On success the caller's \<open>*ret\<close> and \<open>*len\<close> are \<open>h_buf\<close>
  and \<open>h_len\<close> of the engine returned.
\<close>

definition cmdHashGetCommands ::
    "libc \<Rightarrow> heap \<Rightarrow> cmdHash \<Rightarrow> (int \<times> cmdHash \<times> heap) option" where
  "cmdHashGetCommands L h ht =
     (let ht0 = flush_buffer ht in
      case alloc h of
        (False, h1) \<Rightarrow> Some (- 1, ht0\<lparr>h_buf := None\<rparr>, h1)
      | (True, h1) \<Rightarrow>
          (case append_zincrby_cmds L h1 (ht0\<lparr>h_buf := Some []\<rparr>) of
             None \<Rightarrow> None
           | Some (rc, ht1, h2) \<Rightarrow>
               if rc < 0 then Some (- 1, ht1, h2)
               else (case append_sadd_cmds h2 ht1 of
                  None \<Rightarrow> None
                | Some (rc', ht2, h3) \<Rightarrow>
                    if rc' < 0 then Some (- 1, ht2, h3) else Some (0, ht2, h3))))"

definition cmdHashGetCount :: "cmdHash \<Rightarrow> 32 word" where
  "cmdHashGetCount ht = members (z_cmds ht) + keys (s_cmds ht)"

section \<open>The pipeline (buffer-optimize.c)\<close>

text \<open>
  What \<open>redisReaderGetReply\<close> yields, one after the other, while the input is read: a
  reply, or \<open>REDIS_ERR\<close> at bytes that are not the protocol.
\<close>

datatype reader_event = Reply redisReply | REDIS_ERR

text \<open>
  The fields of \<open>optimizerContext\<close> the pipeline computes with; \<open>cmd_count\<close> of the
  context is \<open>ctx_cmd_count\<close>.
\<close>

record optimizerContext =
  stats :: bool
  ctx_cmd_count :: "32 word"
  cmd_buffer :: cmdBuffer
  cmd_hash :: cmdHash

text \<open>
  \<open>processBufferFile\<close>. The return value of \<open>cmdHashAdd\<close> is only compared with
  \<open>TYPE_UNSUPPORTED\<close>, and that of \<open>cmdBufferAddReply\<close> is dropped.
\<close>

fun processBufferFile ::
    "libc \<Rightarrow> heap \<Rightarrow> optimizerContext \<Rightarrow> reader_event list
       \<Rightarrow> (int \<times> optimizerContext \<times> heap) option" where
  "processBufferFile L h ctx [] = Some (0, ctx, h)"
| "processBufferFile L h ctx (REDIS_ERR # rest) = Some (- 1, ctx, h)"
| "processBufferFile L h ctx (Reply reply # rest) =
     (case cmdHashAdd L h (cmd_hash ctx) reply of
        None \<Rightarrow> None
      | Some (rc, ht1, h1) \<Rightarrow>
          if rc = cmdType_int TYPE_UNSUPPORTED then
            (case cmdBufferAddReply h1 (cmd_buffer ctx) reply of
               None \<Rightarrow> None
             | Some (rc', b1, h2) \<Rightarrow>
                 processBufferFile L h2
                   (ctx\<lparr>cmd_hash := ht1, cmd_buffer := b1, ctx_cmd_count := ctx_cmd_count ctx + 1\<rparr>)
                   rest)
          else
            processBufferFile L h1
              (ctx\<lparr>cmd_hash := ht1, ctx_cmd_count := ctx_cmd_count ctx + 1\<rparr>) rest)"

definition appendAggCommands ::
    "libc \<Rightarrow> heap \<Rightarrow> optimizerContext \<Rightarrow> (int \<times> optimizerContext \<times> heap) option" where
  "appendAggCommands L h ctx =
     (if \<not> stats ctx then
        (case cmdHashGetCommands L h (cmd_hash ctx) of
           None \<Rightarrow> None
         | Some (rc, ht1, h1) \<Rightarrow>
             if rc \<noteq> 0 then Some (- 1, ctx\<lparr>cmd_hash := ht1\<rparr>, h1)
             else (case cmdBufferAppend h1 (cmd_buffer ctx) (contents (h_buf ht1))
                          (cmdHashGetCount ht1) of
                     (rc', b1, h2) \<Rightarrow>
                       if rc' < 0 then Some (- 1, ctx\<lparr>cmd_hash := ht1, cmd_buffer := b1\<rparr>, h2)
                       else Some (0, ctx\<lparr>cmd_hash := ht1, cmd_buffer := b1\<rparr>, h2)))
      else
        Some (0, ctx\<lparr>cmd_buffer := (cmd_buffer ctx)
                \<lparr>cmd_count := cmd_count (cmd_buffer ctx) + cmdHashGetCount (cmd_hash ctx)\<rparr>\<rparr>, h))"

text \<open>
  \<open>initContext\<close> with the two table sizes as parameters (\<open>main\<close> passes \<open>KHASH_SIZE\<close>
  and \<open>MHASH_SIZE\<close>); \<open>None\<close> is its \<open>exit(1)\<close>.
\<close>

definition KHASH_SIZE :: nat where
  "KHASH_SIZE = 22016"

definition MHASH_SIZE :: nat where
  "MHASH_SIZE = 512"

definition initContext :: "heap \<Rightarrow> bool \<Rightarrow> nat \<Rightarrow> nat \<Rightarrow> optimizerContext option \<times> heap" where
  "initContext h st ks ms =
     (case cmdBufferCreate h of
        (None, h1) \<Rightarrow> (None, h1)
      | (Some b, h1) \<Rightarrow>
          (case cmdHashCreate h1 ks ms of
             (None, h2) \<Rightarrow> (None, h2)
           | (Some ht, h2) \<Rightarrow>
               (Some \<lparr>stats = st, ctx_cmd_count = 0, cmd_buffer = b, cmd_hash = ht\<rparr>, h2)))"

text \<open>
  The part of \<open>main\<close> between opening the files and the statistics: the exit status,
  and the bytes \<open>writeFile\<close> was given, if it was called.
\<close>

definition run_main ::
    "libc \<Rightarrow> heap \<Rightarrow> optimizerContext \<Rightarrow> reader_event list \<Rightarrow> (int \<times> string option) option" where
  "run_main L h ctx input =
     (case processBufferFile L h ctx input of
        None \<Rightarrow> None
      | Some (rc, ctx1, h1) \<Rightarrow>
          if rc < 0 then Some (1, None)
          else (case appendAggCommands L h1 ctx1 of
             None \<Rightarrow> None
           | Some (rc', ctx2, h2) \<Rightarrow>
               if rc' < 0 then Some (1, None)
               else if \<not> stats ctx2 then
                 (if ctx_cmd_count ctx2 \<noteq> 0 then Some (0, Some (buf (cmd_buffer ctx2)))
                  else Some (1, None))
               else Some (0, None)))"

definition optimize ::
    "libc \<Rightarrow> heap \<Rightarrow> bool \<Rightarrow> nat \<Rightarrow> nat \<Rightarrow> reader_event list \<Rightarrow> (int \<times> string option) option" where
  "optimize L h st ks ms input =
     (case initContext h st ks ms of
        (None, h1) \<Rightarrow> Some (1, None)
      | (Some ctx, h1) \<Rightarrow> run_main L h1 ctx input)"

definition main :: "libc \<Rightarrow> heap \<Rightarrow> bool \<Rightarrow> reader_event list \<Rightarrow> (int \<times> string option) option" where
  "main L h st input = optimize L h st KHASH_SIZE MHASH_SIZE input"

text \<open>
  A C library to run the model at concrete inputs. It agrees with IEEE 754 binary64 and
  with C on the values listed and is arbitrary elsewhere: \<open>strtod\<close> on the texts 0, 1,
  2, 5abc (read as 5) and 1.0000009536743162 (the double whose bits are
  \<open>0x3FF00000FFFFFFFF\<close>), and on abc and every other text that starts with no number
  (read as 0); the sum of a double and +0, the sums 1 + 2 and (1 + 2^-52) + 2, both 3,
  and the sum of the least subnormal and 1.0000009536743162, which is the latter; \<open>%f\<close>
  on 0, 1, 3, 5 and 1.0000009536743162.
\<close>

definition strtod_sample :: "string \<Rightarrow> 64 word" where
  "strtod_sample s =
     (if s = ''1'' then 0x3FF0000000000000
      else if s = ''2'' then 0x4000000000000000
      else if s = ''5abc'' then 0x4014000000000000
      else if s = ''1.0000009536743162'' then 0x3FF00000FFFFFFFF
      else 0)"

definition dadd_sample :: "64 word \<Rightarrow> 64 word \<Rightarrow> 64 word" where
  "dadd_sample a b =
     (if a = 0 then b
      else if b = 0 then a
      else if a = 0x3FF0000000000000 \<and> b = 0x4000000000000000 then 0x4008000000000000
      else if a = 0x3FF0000000000001 \<and> b = 0x4000000000000000 then 0x4008000000000000
      else if a = 1 \<and> b = 0x3FF00000FFFFFFFF then 0x3FF00000FFFFFFFF
      else 0x7FF8000000000000)"

definition fmt_f_sample :: "64 word \<Rightarrow> string" where
  "fmt_f_sample w =
     (if w = 0 then ''0.000000''
      else if w = 0x3FF0000000000000 then ''1.000000''
      else if w = 0x3FF00000FFFFFFFF then ''1.000001''
      else if w = 0x4008000000000000 then ''3.000000''
      else if w = 0x4014000000000000 then ''5.000000''
      else ''nan'')"

definition libc_sample :: libc where
  "libc_sample = \<lparr>strtod = strtod_sample, dadd = dadd_sample, fmt_f = fmt_f_sample\<rparr>"

section \<open>Facts about the string functions\<close>

lemma tolower_NUL [simp]: "tolower NUL = NUL"
  by (simp add: tolower_def NUL_def)

lemma of_char_tolower:
  "(of_char (tolower c) :: nat) =
     (if 65 \<le> (of_char c :: nat) \<and> (of_char c :: nat) \<le> 90 then of_char c + 32 else of_char c)"
  by (simp add: tolower_def)

lemma of_char_eq_0_iff: "(of_char c :: nat) = 0 \<longleftrightarrow> c = NUL"
proof -
  have "(of_char c :: nat) = of_char NUL \<longleftrightarrow> c = NUL"
    by (rule of_char_eq_iff)
  then show ?thesis by (simp add: NUL_def)
qed

lemma tolower_eq_NUL [simp]: "tolower c = NUL \<longleftrightarrow> c = NUL"
proof -
  have "tolower c = NUL \<longleftrightarrow> (of_char (tolower c) :: nat) = 0"
    by (simp add: of_char_eq_0_iff)
  also have "\<dots> \<longleftrightarrow> (of_char c :: nat) = 0"
    by (simp add: of_char_tolower)
  finally show ?thesis by (simp add: of_char_eq_0_iff)
qed

lemma NUL_eq_tolower [simp]: "NUL = tolower c \<longleftrightarrow> c = NUL"
  using tolower_eq_NUL [of c] by (simp only: eq_commute)

lemma of_char_diff_0 [simp]: "int (of_char x) - int (of_char y) = 0 \<longleftrightarrow> x = y"
  by simp

lemma cstr_Nil: "cstr [] = []"
  by (simp add: cstr_def)

lemma cstr_Cons: "cstr (c # s) = (if c = NUL then [] else c # cstr s)"
  by (simp add: cstr_def)

lemma peek_Nil [simp]: "peek [] = NUL"
  by (simp add: peek_def)

lemma peek_Cons [simp]: "peek (c # s) = c"
  by (simp add: peek_def)

lemma strncasecmp_0_iff:
  "strncasecmp a b n = 0 \<longleftrightarrow> map tolower (take n (cstr a)) = map tolower (take n (cstr b))"
proof (induction n arbitrary: a b)
  case 0
  then show ?case by simp
next
  case (Suc n)
  show ?case
    by (cases a; cases b) (auto simp: Suc cstr_Nil cstr_Cons)
qed

lemma strncmp_0_iff:
  "strncmp a b n = 0 \<longleftrightarrow> take n (cstr a) = take n (cstr b)"
proof (induction n arbitrary: a b)
  case 0
  then show ?case by simp
next
  case (Suc n)
  show ?case
    by (cases a; cases b) (auto simp: Suc cstr_Nil cstr_Cons)
qed

lemma map_take_short:
  "length ys < n \<Longrightarrow> map f (take n xs) = ys \<longleftrightarrow> map f xs = ys"
proof
  assume n: "length ys < n" and eq: "map f (take n xs) = ys"
  from eq have "length (take n xs) = length ys" by (metis length_map)
  with n have "take n xs = xs" by (simp add: min_def split: if_splits)
  with eq show "map f xs = ys" by simp
next
  assume n: "length ys < n" and eq: "map f xs = ys"
  then have "length xs < n" by (metis length_map)
  with eq show "map f (take n xs) = ys" by simp
qed

lemma length_cstr_le: "length (cstr s) \<le> length s"
  by (simp add: cstr_def length_takeWhile_le)

section \<open>Classification is by the name as a C string\<close>

lemma name_is_lit:
  "name_is (REDIS_REPLY_ARRAY (REDIS_REPLY_STRING name # args)) lit =
     Some (map tolower (cstr name) = map tolower (cstr lit))"
proof -
  have "length (map tolower (cstr lit)) < Suc (length lit)"
    using length_cstr_le [of lit] by simp
  then show ?thesis
    using length_cstr_le [of lit]
    by (simp add: name_is_def strncasecmp_0_iff map_take_short del: strncasecmp.simps)
qed

lemma lit_zincrby: "map tolower (cstr ''ZINCRBY'') = ''zincrby''"
  by code_simp

lemma lit_sadd: "map tolower (cstr ''SADD'') = ''sadd''"
  by code_simp

text \<open>
  C8, as the code has it. A parsed command is an array whose first element is the
  name, a bulk string. Its classification is always defined, and it is: ZINCRBY when
  there are exactly 4 elements (3 arguments behind the name) and the name, read as a C
  string (the bytes in front of its first NUL), is "zincrby" in any letter case; SADD
  when there are more than 2 elements and the name, read the same way, is "sadd";
  unsupported otherwise. The length of the bulk string is never looked at.
\<close>

theorem get_type_total:
  "get_type (REDIS_REPLY_ARRAY (REDIS_REPLY_STRING name # args)) =
     Some (if length args = 3 \<and> map tolower (cstr name) = ''zincrby'' then TYPE_ZINCRBY
           else if length args > 1 \<and> map tolower (cstr name) = ''sadd'' then TYPE_SADD
           else TYPE_UNSUPPORTED)"
  by (simp add: get_type_def elements_def name_is_lit lit_zincrby lit_sadd)

text \<open>
  A name of 9 bytes, ZINCRBY followed by a NUL and an X, is longer than the command
  word and differs from it, and is classified as ZINCRBY all the same.
\<close>

theorem get_type_nul_counterexample:
  "get_type (REDIS_REPLY_ARRAY [REDIS_REPLY_STRING (''ZINCRBY'' @ [NUL] @ ''X''),
      REDIS_REPLY_STRING ''k'', REDIS_REPLY_STRING ''1'', REDIS_REPLY_STRING ''m'']) = Some TYPE_ZINCRBY
   \<and> length (''ZINCRBY'' @ [NUL] @ ''X'') \<noteq> length ''ZINCRBY''
   \<and> map tolower (''ZINCRBY'' @ [NUL] @ ''X'') \<noteq> map tolower ''ZINCRBY''"
  by code_simp

section \<open>Pass-through encoding\<close>

lemma alloc_Nil [simp]: "alloc [] = (True, [])"
  by (simp add: alloc_def)

lemma cmdBufferGrow_Nil:
  "cmdBufferGrow [] b n =
     (0, b\<lparr>bsize := (if pos b + n < BUF_MAX_PREALLOC then (pos b + n) * 2
                     else pos b + n + BUF_MAX_PREALLOC)\<rparr>, [])"
  by (simp add: cmdBufferGrow_def Let_def)

lemma cmdBufferAppend_Nil:
  "cmdBufferAppend [] b s n =
     (0, b\<lparr>bsize := (if pos b + length s > bsize b
                      then (if pos b + length s < BUF_MAX_PREALLOC then (pos b + length s) * 2
                            else pos b + length s + BUF_MAX_PREALLOC)
                      else bsize b),
             buf := buf b @ s, pos := pos b + length s, cmd_count := cmd_count b + n\<rparr>, [])"
  by (simp add: cmdBufferAppend_def cmdBufferGrow_Nil)

text \<open>
  C9 at a command that carries an integer argument: INCRBY x 5 with the 5 sent as an
  integer. The call succeeds and the bytes appended are those of INCRBY x 0: the
  integer is printed from the enclosing reply, whose \<open>integer\<close> field is 0, and not
  from the element.
\<close>

theorem cmdBufferAddReply_integer_argument:
  "map_option (\<lambda>(rc, b, h). (rc, buf b))
     (cmdBufferAddReply [] \<lparr>buf = [], bsize = INITIAL_ALLOC, pos = 0, cmd_count = 0\<rparr>
        (REDIS_REPLY_ARRAY [REDIS_REPLY_STRING ''INCRBY'', REDIS_REPLY_STRING ''x'',
           REDIS_REPLY_INTEGER 5]))
     = Some (0, redisFormatCommandArgv [''INCRBY'', ''x'', ''0''])
   \<and> redisFormatCommandArgv [''INCRBY'', ''x'', ''0'']
       \<noteq> redisFormatCommandArgv [''INCRBY'', ''x'', lld 5]"
proof (intro conjI)
  have zero: "lld 0 = ''0''"
    by code_simp
  show "map_option (\<lambda>(rc, b, h). (rc, buf b))
     (cmdBufferAddReply [] \<lparr>buf = [], bsize = INITIAL_ALLOC, pos = 0, cmd_count = 0\<rparr>
        (REDIS_REPLY_ARRAY [REDIS_REPLY_STRING ''INCRBY'', REDIS_REPLY_STRING ''x'',
           REDIS_REPLY_INTEGER 5]))
     = Some (0, redisFormatCommandArgv [''INCRBY'', ''x'', ''0''])"
    by (simp add: cmdBufferAddReply_def cmdBufferAppend_Nil zero)
  show "redisFormatCommandArgv [''INCRBY'', ''x'', ''0'']
       \<noteq> redisFormatCommandArgv [''INCRBY'', ''x'', lld 5]"
    by code_simp
qed

section \<open>The engine when no allocation fails\<close>

text \<open>
  With the heap \<open>[]\<close> the two lookups always return a node. Their effect is named
  here: where the node is, and the container and key node afterwards.
\<close>

definition key_place :: "cmdHashContainer \<Rightarrow> string \<Rightarrow> nat \<times> nat" where
  "key_place c k =
     (let num = GET_BUCKET k (ksize c); chain = bucket c ! num in
      case scan_keys chain k of Some i \<Rightarrow> (num, i) | None \<Rightarrow> (num, length chain))"

definition key_insert :: "cmdHashContainer \<Rightarrow> string \<Rightarrow> cmdHashContainer" where
  "key_insert c k =
     (let num = GET_BUCKET k (ksize c); chain = bucket c ! num in
      case scan_keys chain k of
        Some i \<Rightarrow> c
      | None \<Rightarrow>
          c\<lparr>keys := keys c + 1,
            bucket := (bucket c)[num := chain @
               [\<lparr>key = strndup k (length k), klen = length k, count = 0, mbucket = []\<rparr>]]\<rparr>)"

definition table_of :: "cmdHashContainer \<Rightarrow> cmdKeyList \<Rightarrow> cmdMemberList list list" where
  "table_of c k = (if mbucket k = [] then replicate (msize c) [] else mbucket k)"

definition member_place :: "cmdHashContainer \<Rightarrow> cmdKeyList \<Rightarrow> string \<Rightarrow> nat \<times> nat" where
  "member_place c k m =
     (let num = GET_BUCKET m (msize c); chain = table_of c k ! num in
      case scan_members chain m of Some j \<Rightarrow> (num, j) | None \<Rightarrow> (num, length chain))"

definition member_counted :: "cmdHashContainer \<Rightarrow> cmdKeyList \<Rightarrow> string \<Rightarrow> cmdHashContainer" where
  "member_counted c k m =
     (case scan_members (table_of c k ! GET_BUCKET m (msize c)) m of
        Some j \<Rightarrow> c
      | None \<Rightarrow> c\<lparr>str_len := map_option (\<lambda>n. n + of_nat (length m)) (str_len c),
                   members := members c + 1\<rparr>)"

definition member_insert :: "cmdHashContainer \<Rightarrow> cmdKeyList \<Rightarrow> string \<Rightarrow> cmdKeyList" where
  "member_insert c k m =
     (let num = GET_BUCKET m (msize c); chain = table_of c k ! num in
      case scan_members chain m of
        Some j \<Rightarrow>
          k\<lparr>mbucket := (table_of c k)[num := chain[j := hits_incr (chain ! j)]]\<rparr>
      | None \<Rightarrow>
          k\<lparr>count := count k + 1,
            mbucket := (table_of c k)[num := chain @
               [\<lparr>member = strndup m (length m), mlen = length m, score = 0\<rparr>]]\<rparr>)"

lemma find_key_Nil:
  "find_key [] c k = (Some (key_place c k), key_insert c k, [])"
  by (simp add: find_key_def key_place_def key_insert_def Let_def split: option.splits)

lemma find_member_Nil:
  "find_member [] c k m =
     (Some (member_place c k m), member_counted c k m, member_insert c k m, [])"
  by (simp add: find_member_def member_place_def member_counted_def member_insert_def
      table_of_def Let_def split: option.splits)

text \<open>One member added under the key node at \<open>p\<close>, and one ZINCRBY command merged.\<close>

definition member_step :: "cmdHashContainer \<Rightarrow> nat \<times> nat \<Rightarrow> string \<Rightarrow> cmdHashContainer" where
  "member_step c p m =
     store_key (member_counted c (load_key c p) m) p (member_insert c (load_key c p) m)"

definition zincrby_step ::
    "libc \<Rightarrow> cmdHashContainer \<Rightarrow> string \<Rightarrow> 64 word \<Rightarrow> string \<Rightarrow> cmdHashContainer" where
  "zincrby_step L c k d m =
     (let p = key_place c k; c1 = key_insert c k; k1 = load_key c1 p in
      store_key (member_counted c1 k1 m) p
        (add_score L (member_insert c1 k1 m) (member_place c1 k1 m) d))"

definition sadd_step :: "cmdHashContainer \<Rightarrow> string \<Rightarrow> string list \<Rightarrow> cmdHashContainer" where
  "sadd_step c k ms = fold (\<lambda>m c'. member_step c' (key_place c k) m) ms (key_insert c k)"

text \<open>A command all of whose elements are bulk strings.\<close>

definition command :: "string list \<Rightarrow> redisReply" where
  "command ws = REDIS_REPLY_ARRAY (map REDIS_REPLY_STRING ws)"

lemma get_type_command:
  "get_type (command (name # args)) =
     Some (if length args = 3 \<and> map tolower (cstr name) = ''zincrby'' then TYPE_ZINCRBY
           else if length args > 1 \<and> map tolower (cstr name) = ''sadd'' then TYPE_SADD
           else TYPE_UNSUPPORTED)"
  by (simp add: command_def get_type_def elements_def name_is_lit lit_zincrby lit_sadd)

lemma get_type_command_Nil: "get_type (command []) = Some TYPE_UNSUPPORTED"
  by (simp add: command_def get_type_def elements_def)

lemma hash_zincrby_cmd_Nil:
  "\<not> corrupt (z_cmds ht) \<Longrightarrow>
   hash_zincrby_cmd L [] ht (command [name, k, d, m]) =
     Some (0, ht\<lparr>z_cmds := zincrby_step L (z_cmds ht) k (strtod L d) m\<rparr>, [])"
  by (simp add: hash_zincrby_cmd_def command_def find_key_Nil find_member_Nil zincrby_step_def
      Let_def)

lemma sadd_members_Nil:
  "sadd_members [] c p (map REDIS_REPLY_STRING ms) =
     Some (0, fold (\<lambda>m c'. member_step c' p m) ms c, [])"
  by (induction ms arbitrary: c) (simp_all add: find_member_Nil member_step_def)

lemma hash_sadd_cmd_Nil:
  "\<not> corrupt (s_cmds ht) \<Longrightarrow>
   hash_sadd_cmd [] ht (command (name # k # ms)) =
     Some (0, ht\<lparr>s_cmds := sadd_step (s_cmds ht) k ms\<rparr>, [])"
  by (simp add: hash_sadd_cmd_def command_def find_key_Nil sadd_members_Nil sadd_step_def)

section \<open>Unsupported commands leave the engine alone\<close>

text \<open>
  C10. When \<open>__get_type\<close> classifies a reply as unsupported, \<open>cmdHashAdd\<close> returns
  \<open>TYPE_UNSUPPORTED\<close> and the engine afterwards is the engine before: both
  containers with their buckets, key and member counts and string lengths, and the
  serialization buffer. No allocation is made either.
\<close>

theorem cmdHashAdd_unsupported:
  "get_type r = Some TYPE_UNSUPPORTED \<Longrightarrow>
   cmdHashAdd L h ht r = Some (cmdType_int TYPE_UNSUPPORTED, ht, h)"
  by (simp add: cmdHashAdd_def)

theorem cmdHashAdd_unsupported_witness:
  "get_type (command [''SET'', ''x'', ''1'']) = Some TYPE_UNSUPPORTED
   \<and> cmdHashAdd libc_sample [True, False]
        \<lparr>s_cmds = \<lparr>ksize = 1, msize = 1, keys = 0, members = 0, str_len = None,
                    bucket = [[]], corrupt = False\<rparr>,
          z_cmds = \<lparr>ksize = 1, msize = 1, keys = 0, members = 0, str_len = None,
                    bucket = [[]], corrupt = False\<rparr>,
          h_buf = None, h_size = 0, h_len = 0\<rparr>
        (command [''SET'', ''x'', ''1''])
      = Some (2,
          \<lparr>s_cmds = \<lparr>ksize = 1, msize = 1, keys = 0, members = 0, str_len = None,
                      bucket = [[]], corrupt = False\<rparr>,
            z_cmds = \<lparr>ksize = 1, msize = 1, keys = 0, members = 0, str_len = None,
                      bucket = [[]], corrupt = False\<rparr>,
            h_buf = None, h_size = 0, h_len = 0\<rparr>,
          [True, False])"
proof -
  have t: "get_type (command [''SET'', ''x'', ''1'']) = Some TYPE_UNSUPPORTED"
    by (simp add: get_type_command cstr_Cons cstr_Nil tolower_def NUL_def)
  from cmdHashAdd_unsupported [OF t] t show ?thesis
    by simp
qed

section \<open>Writing the commands when no allocation fails\<close>

text \<open>The bytes the two families of aggregated commands are written as.\<close>

definition zincrby_wire :: "libc \<Rightarrow> cmdKeyList \<Rightarrow> cmdMemberList \<Rightarrow> string" where
  "zincrby_wire L k mem = redisFormatCommandArgv [''ZINCRBY'', key k, fmt_f L (score mem), member mem]"

definition sadd_wire :: "cmdKeyList \<Rightarrow> string" where
  "sadd_wire k = redisFormatCommandArgv (''SADD'' # key k # map member (concat (mbucket k)))"

definition zincrby_bytes :: "libc \<Rightarrow> cmdHashContainer \<Rightarrow> string" where
  "zincrby_bytes L c =
     concat (map (\<lambda>k. concat (map (zincrby_wire L k) (concat (mbucket k)))) (concat (bucket c)))"

definition sadd_bytes :: "cmdHashContainer \<Rightarrow> string" where
  "sadd_bytes c = concat (map sadd_wire (concat (bucket c)))"

text \<open>What the walks need of a key node and of a container to be defined.\<close>

definition key_ok :: "cmdHashContainer \<Rightarrow> cmdKeyList \<Rightarrow> bool" where
  "key_ok c k \<longleftrightarrow>
     length (mbucket k) = msize c \<and> readable_key k
     \<and> list_all readable_member (concat (mbucket k))
     \<and> length (concat (mbucket k)) = unat (count k)"

definition container_ok :: "cmdHashContainer \<Rightarrow> bool" where
  "container_ok c \<longleftrightarrow>
     length (bucket c) = ksize c \<and> \<not> corrupt c \<and> list_all (key_ok c) (concat (bucket c))"

lemma realloc_buffer_Nil:
  "realloc_buffer [] ht n =
     (0, ht\<lparr>h_size := (if h_len ht + n < BUF_MAX_PREALLOC then (h_len ht + n) * 2
                        else h_len ht + n + BUF_MAX_PREALLOC)\<rparr>, [])"
  by (simp add: realloc_buffer_def Let_def)

text \<open>The engine with bytes appended to its buffer and some capacity.\<close>

definition appended :: "cmdHash \<Rightarrow> string \<Rightarrow> nat \<Rightarrow> cmdHash" where
  "appended ht s sz =
     ht\<lparr>h_size := sz, h_buf := Some (contents (h_buf ht) @ s), h_len := h_len ht + length s\<rparr>"

lemma appended_appended:
  "appended (appended ht s sz) t sz' = appended ht (s @ t) sz'"
  by (simp add: appended_def contents_def)

lemma appended_fields [simp]:
  "s_cmds (appended ht s sz) = s_cmds ht"
  "z_cmds (appended ht s sz) = z_cmds ht"
  "h_buf (appended ht s sz) = Some (contents (h_buf ht) @ s)"
  "h_len (appended ht s sz) = h_len ht + length s"
  "h_size (appended ht s sz) = sz"
  by (simp_all add: appended_def)

lemma append_buffer_Nil:
  "append_buffer [] ht s =
     (0, appended ht s
           (if h_len ht + length s > h_size ht
            then (if h_len ht + length s < BUF_MAX_PREALLOC then (h_len ht + length s) * 2
                  else h_len ht + length s + BUF_MAX_PREALLOC)
            else h_size ht), [])"
  by (simp add: append_buffer_def realloc_buffer_Nil appended_def)

lemma append_buffer_appended:
  "\<exists>sz. append_buffer [] ht s = (0, appended ht s sz, [])"
  by (metis append_buffer_Nil)

lemma appended_resized [simp]:
  "appended (ht\<lparr>h_size := n\<rparr>) s sz = appended ht s sz"
  by (simp add: appended_def)

lemma append_zincrby_members_step:
  "readable_key k \<Longrightarrow> readable_member mem \<Longrightarrow>
   \<exists>sz. append_zincrby_members L [] ht k (mem # ms) =
          append_zincrby_members L [] (appended ht (zincrby_wire L k mem) sz) k ms"
proof (cases "h_len ht + length (zincrby_wire L k mem) > h_size ht")
  case True
  assume "readable_key k" "readable_member mem"
  with True show ?thesis
    by (simp add: zincrby_wire_def realloc_buffer_Nil append_buffer_Nil Let_def) blast
next
  case False
  assume "readable_key k" "readable_member mem"
  with False show ?thesis
    by (simp add: zincrby_wire_def append_buffer_Nil Let_def) blast
qed

lemma append_zincrby_members_Nil:
  "readable_key k \<Longrightarrow> list_all readable_member ms \<Longrightarrow> h_buf ht \<noteq> None \<Longrightarrow>
   \<exists>sz. append_zincrby_members L [] ht k ms =
     Some (0, appended ht (concat (map (zincrby_wire L k) ms)) sz, [])"
proof (induction ms arbitrary: ht)
  case Nil
  have "appended ht [] (h_size ht) = ht"
    using Nil by (auto simp: appended_def contents_def)
  then show ?case
    by (metis append_zincrby_members.simps(1) concat.simps(1) list.simps(8))
next
  case (Cons mem ms)
  let ?cmd = "zincrby_wire L k mem"
  obtain sz1 where a: "append_zincrby_members L [] ht k (mem # ms) =
          append_zincrby_members L [] (appended ht ?cmd sz1) k ms"
    using append_zincrby_members_step [of k mem L ht ms] Cons.prems by auto
  have "\<exists>sz. append_zincrby_members L [] (appended ht ?cmd sz1) k ms =
          Some (0, appended (appended ht ?cmd sz1) (concat (map (zincrby_wire L k) ms)) sz, [])"
    using Cons.prems by (intro Cons.IH) simp_all
  then obtain sz where
    c: "append_zincrby_members L [] (appended ht ?cmd sz1) k ms =
          Some (0, appended (appended ht ?cmd sz1) (concat (map (zincrby_wire L k) ms)) sz, [])"
    by blast
  from a c have "append_zincrby_members L [] ht k (mem # ms) =
      Some (0, appended ht (?cmd @ concat (map (zincrby_wire L k) ms)) sz, [])"
    by (simp only: appended_appended)
  then show ?case
    by (intro exI [of _ sz]) (simp del: append_zincrby_members.simps)
qed


lemma append_zincrby_key_cmds_Nil:
  "key_ok (z_cmds ht) k \<Longrightarrow> h_buf ht \<noteq> None \<Longrightarrow>
   \<exists>sz. append_zincrby_key_cmds L [] ht k =
     Some (0, appended ht (concat (map (zincrby_wire L k) (concat (mbucket k)))) sz, [])"
  using append_zincrby_members_Nil [of k "concat (mbucket k)" ht L]
  by (simp add: append_zincrby_key_cmds_def members_of_def key_ok_def)

lemma append_zincrby_keys_Nil:
  "list_all (key_ok (z_cmds ht)) ks \<Longrightarrow> h_buf ht \<noteq> None \<Longrightarrow>
   \<exists>sz. append_zincrby_keys L [] ht ks =
     Some (0, appended ht
       (concat (map (\<lambda>k. concat (map (zincrby_wire L k) (concat (mbucket k)))) ks)) sz, [])"
proof (induction ks arbitrary: ht)
  case Nil
  have "appended ht [] (h_size ht) = ht"
    using Nil by (auto simp: appended_def contents_def)
  then show ?case
    by (metis append_zincrby_keys.simps(1) concat.simps(1) list.simps(8))
next
  case (Cons k ks)
  let ?b = "concat (map (zincrby_wire L k) (concat (mbucket k)))"
  let ?rest = "concat (map (\<lambda>k. concat (map (zincrby_wire L k) (concat (mbucket k)))) ks)"
  obtain sz1 where a: "append_zincrby_key_cmds L [] ht k = Some (0, appended ht ?b sz1, [])"
    using append_zincrby_key_cmds_Nil [of ht k L] Cons.prems by auto
  have "\<exists>sz. append_zincrby_keys L [] (appended ht ?b sz1) ks =
          Some (0, appended (appended ht ?b sz1) ?rest sz, [])"
    using Cons.prems by (intro Cons.IH) simp_all
  then obtain sz where
    c: "append_zincrby_keys L [] (appended ht ?b sz1) ks =
          Some (0, appended (appended ht ?b sz1) ?rest sz, [])"
    by blast
  from a c have "append_zincrby_keys L [] ht (k # ks) = Some (0, appended ht (?b @ ?rest) sz, [])"
    by (simp add: appended_appended)
  then show ?case
    by (intro exI [of _ sz]) (simp del: append_zincrby_keys.simps)
qed

lemma append_zincrby_cmds_Nil:
  "container_ok (z_cmds ht) \<Longrightarrow> h_buf ht \<noteq> None \<Longrightarrow>
   \<exists>sz. append_zincrby_cmds L [] ht =
     Some (0, appended ht (zincrby_bytes L (z_cmds ht)) sz, [])"
  using append_zincrby_keys_Nil [of ht "concat (bucket (z_cmds ht))" L]
  by (simp add: append_zincrby_cmds_def keys_of_def container_ok_def zincrby_bytes_def)

lemma append_sadd_key_cmd_Nil:
  "key_ok (s_cmds ht) k \<Longrightarrow>
   \<exists>sz. append_sadd_key_cmd [] ht k = Some (0, appended ht (sadd_wire k) sz, [])"
  using append_buffer_appended [of ht "sadd_wire k"]
  by (simp add: append_sadd_key_cmd_def members_of_def key_ok_def sadd_wire_def)

lemma append_sadd_keys_Nil:
  "list_all (key_ok (s_cmds ht)) ks \<Longrightarrow> h_buf ht \<noteq> None \<Longrightarrow>
   \<exists>sz. append_sadd_keys [] ht ks = Some (0, appended ht (concat (map sadd_wire ks)) sz, [])"
proof (induction ks arbitrary: ht)
  case Nil
  have "appended ht [] (h_size ht) = ht"
    using Nil by (auto simp: appended_def contents_def)
  then show ?case
    by (metis append_sadd_keys.simps(1) concat.simps(1) list.simps(8))
next
  case (Cons k ks)
  obtain sz1 where a: "append_sadd_key_cmd [] ht k = Some (0, appended ht (sadd_wire k) sz1, [])"
    using append_sadd_key_cmd_Nil [of ht k] Cons.prems by auto
  have "\<exists>sz. append_sadd_keys [] (appended ht (sadd_wire k) sz1) ks =
          Some (0, appended (appended ht (sadd_wire k) sz1) (concat (map sadd_wire ks)) sz, [])"
    using Cons.prems by (intro Cons.IH) simp_all
  then obtain sz where
    c: "append_sadd_keys [] (appended ht (sadd_wire k) sz1) ks =
          Some (0, appended (appended ht (sadd_wire k) sz1) (concat (map sadd_wire ks)) sz, [])"
    by blast
  from a c have "append_sadd_keys [] ht (k # ks) =
      Some (0, appended ht (sadd_wire k @ concat (map sadd_wire ks)) sz, [])"
    by (simp add: appended_appended)
  then show ?case
    by (intro exI [of _ sz]) (simp del: append_sadd_keys.simps)
qed

lemma append_sadd_cmds_Nil:
  "container_ok (s_cmds ht) \<Longrightarrow> h_buf ht \<noteq> None \<Longrightarrow>
   \<exists>sz. append_sadd_cmds [] ht = Some (0, appended ht (sadd_bytes (s_cmds ht)) sz, [])"
  using append_sadd_keys_Nil [of ht "concat (bucket (s_cmds ht))"]
  by (simp add: append_sadd_cmds_def keys_of_def container_ok_def sadd_bytes_def)

text \<open>The engine as \<open>cmdHashGetCommands\<close> first makes it: an allocated, empty buffer.\<close>

definition emptied :: "cmdHash \<Rightarrow> cmdHash" where
  "emptied ht = (flush_buffer ht)\<lparr>h_buf := Some []\<rparr>"

lemma emptied_fields [simp]:
  "s_cmds (emptied ht) = s_cmds ht"
  "z_cmds (emptied ht) = z_cmds ht"
  "h_buf (emptied ht) = Some []"
  by (simp_all add: emptied_def flush_buffer_def)

lemma cmdHashGetCommands_Nil:
  assumes "container_ok (z_cmds ht)" and "container_ok (s_cmds ht)"
  shows "\<exists>sz. cmdHashGetCommands L [] ht =
     Some (0, appended (emptied ht) (zincrby_bytes L (z_cmds ht) @ sadd_bytes (s_cmds ht)) sz, [])"
proof -
  obtain sz1 where a: "append_zincrby_cmds L [] (emptied ht) =
      Some (0, appended (emptied ht) (zincrby_bytes L (z_cmds ht)) sz1, [])"
    using append_zincrby_cmds_Nil [of "emptied ht" L] assms by auto
  let ?ht1 = "appended (emptied ht) (zincrby_bytes L (z_cmds ht)) sz1"
  obtain sz where b: "append_sadd_cmds [] ?ht1 =
      Some (0, appended ?ht1 (sadd_bytes (s_cmds ht)) sz, [])"
    using append_sadd_cmds_Nil [of ?ht1] assms by auto
  from a b have "cmdHashGetCommands L [] ht =
     Some (0, appended (emptied ht) (zincrby_bytes L (z_cmds ht) @ sadd_bytes (s_cmds ht)) sz, [])"
    by (simp add: cmdHashGetCommands_def emptied_def appended_appended Let_def)
  then show ?thesis
    by blast
qed

section \<open>The pipeline when no allocation fails\<close>

lemma those_strings:
  "those (map (argv_slot r \<circ> REDIS_REPLY_STRING) ws) = Some ws"
  by (induction ws) simp_all

text \<open>The buffer with bytes and a number of commands appended, and some capacity.\<close>

definition buffered :: "cmdBuffer \<Rightarrow> string \<Rightarrow> 32 word \<Rightarrow> nat \<Rightarrow> cmdBuffer" where
  "buffered b s n sz =
     b\<lparr>bsize := sz, buf := buf b @ s, pos := pos b + length s, cmd_count := cmd_count b + n\<rparr>"

lemma buffered_fields [simp]:
  "buf (buffered b s n sz) = buf b @ s"
  "pos (buffered b s n sz) = pos b + length s"
  "cmd_count (buffered b s n sz) = cmd_count b + n"
  "bsize (buffered b s n sz) = sz"
  by (simp_all add: buffered_def)

lemma buffered_buffered:
  "buffered (buffered b s n sz) t m sz' = buffered b (s @ t) (n + m) sz'"
  by (simp add: buffered_def add.assoc)

lemma buffered_id: "buffered b [] 0 (bsize b) = b"
  by (simp add: buffered_def)

lemma cmdBufferAppend_buffered:
  "\<exists>sz. cmdBufferAppend [] b s n = (0, buffered b s n sz, [])"
  by (metis cmdBufferAppend_Nil buffered_def)

lemma cmdBufferAddReply_command:
  "\<exists>sz. cmdBufferAddReply [] b (command ws) =
     Some (0, buffered b (redisFormatCommandArgv ws) 1 sz, [])"
  using cmdBufferAppend_buffered [of b "redisFormatCommandArgv ws" 1]
  by (simp add: cmdBufferAddReply_def command_def those_strings)

text \<open>What one command does to the engine, and which commands pass through.\<close>

definition engine_step :: "libc \<Rightarrow> cmdHash \<Rightarrow> string list \<Rightarrow> cmdHash" where
  "engine_step L ht ws =
     (case get_type (command ws) of
        Some TYPE_ZINCRBY \<Rightarrow>
          ht\<lparr>z_cmds := zincrby_step L (z_cmds ht) (ws ! 1) (strtod L (ws ! 2)) (ws ! 3)\<rparr>
      | Some TYPE_SADD \<Rightarrow> ht\<lparr>s_cmds := sadd_step (s_cmds ht) (ws ! 1) (drop 2 ws)\<rparr>
      | _ \<Rightarrow> ht)"

definition passthru :: "string list \<Rightarrow> bool" where
  "passthru ws \<longleftrightarrow> get_type (command ws) = Some TYPE_UNSUPPORTED"

lemma corrupt_store_key [simp]: "corrupt (store_key c p k) = corrupt c"
  by (simp add: store_key_def)

lemma corrupt_key_insert [simp]: "corrupt (key_insert c k) = corrupt c"
  by (simp add: key_insert_def Let_def split: option.splits)

lemma corrupt_member_counted [simp]: "corrupt (member_counted c k m) = corrupt c"
  by (simp add: member_counted_def split: option.splits)

lemma corrupt_member_step [simp]: "corrupt (member_step c p m) = corrupt c"
  by (simp add: member_step_def)

lemma corrupt_zincrby_step [simp]: "corrupt (zincrby_step L c k d m) = corrupt c"
  by (simp add: zincrby_step_def Let_def)

lemma corrupt_fold_member_step [simp]:
  "corrupt (fold (\<lambda>m c'. member_step c' p m) ms c) = corrupt c"
  by (induction ms arbitrary: c) simp_all

lemma corrupt_sadd_step [simp]: "corrupt (sadd_step c k ms) = corrupt c"
  by (simp add: sadd_step_def)

lemma get_type_command_cases:
  "get_type (command ws) = Some TYPE_UNSUPPORTED
   \<or> (get_type (command ws) = Some TYPE_ZINCRBY \<and> (\<exists>n k d m. ws = [n, k, d, m]))
   \<or> (get_type (command ws) = Some TYPE_SADD \<and> (\<exists>n k m ms. ws = n # k # m # ms))"
proof (cases ws)
  case Nil
  then show ?thesis by (simp add: get_type_command_Nil)
next
  case (Cons n args)
  show ?thesis
  proof (cases "length args = 3 \<and> map tolower (cstr n) = ''zincrby''")
    case True
    then obtain k d m where "args = [k, d, m]"
      by (auto simp: length_Suc_conv numeral_3_eq_3)
    with True Cons show ?thesis by (simp add: get_type_command)
  next
    case False
    show ?thesis
    proof (cases "length args > 1 \<and> map tolower (cstr n) = ''sadd''")
      case True
      then obtain k m ms where "args = k # m # ms"
        by (cases args; cases "tl args") auto
      with True False Cons show ?thesis by (simp add: get_type_command)
    next
      case F2: False
      with False Cons show ?thesis by (auto simp: get_type_command)
    qed
  qed
qed

lemma cmdHashAdd_command:
  assumes "\<not> corrupt (z_cmds ht)" and "\<not> corrupt (s_cmds ht)"
  shows "cmdHashAdd L [] ht (command ws) =
     Some (if passthru ws then 2 else 0, engine_step L ht ws, [])"
  using get_type_command_cases [of ws] assms
  by (auto simp: cmdHashAdd_def engine_step_def passthru_def hash_zincrby_cmd_Nil hash_sadd_cmd_Nil)

lemma corrupt_engine_step [simp]:
  "corrupt (z_cmds (engine_step L ht ws)) = corrupt (z_cmds ht)"
  "corrupt (s_cmds (engine_step L ht ws)) = corrupt (s_cmds ht)"
  by (simp_all add: engine_step_def split: option.splits cmdType.splits)

lemma processBufferFile_Nil:
  assumes "\<not> corrupt (z_cmds (cmd_hash ctx))" and "\<not> corrupt (s_cmds (cmd_hash ctx))"
  shows "\<exists>sz. processBufferFile L [] ctx (map (\<lambda>ws. Reply (command ws)) wss) =
     Some (0, ctx\<lparr>cmd_hash := fold (\<lambda>ws ht. engine_step L ht ws) wss (cmd_hash ctx),
                  cmd_buffer := buffered (cmd_buffer ctx)
                     (concat (map redisFormatCommandArgv (filter passthru wss)))
                     (of_nat (length (filter passthru wss))) sz,
                  ctx_cmd_count := ctx_cmd_count ctx + of_nat (length wss)\<rparr>, [])"
  using assms
proof (induction wss arbitrary: ctx)
  case Nil
  show ?case
    by (rule exI [of _ "bsize (cmd_buffer ctx)"]) (simp add: buffered_id)
next
  case (Cons ws wss)
  show ?case
  proof (cases "passthru ws")
    case True
    obtain sz1 where a: "cmdBufferAddReply [] (cmd_buffer ctx) (command ws) =
        Some (0, buffered (cmd_buffer ctx) (redisFormatCommandArgv ws) 1 sz1, [])"
      using cmdBufferAddReply_command by blast
    let ?ctx1 = "ctx\<lparr>cmd_hash := engine_step L (cmd_hash ctx) ws,
                      cmd_buffer := buffered (cmd_buffer ctx) (redisFormatCommandArgv ws) 1 sz1,
                      ctx_cmd_count := ctx_cmd_count ctx + 1\<rparr>"
    have step: "processBufferFile L [] ctx (map (\<lambda>ws. Reply (command ws)) (ws # wss)) =
        processBufferFile L [] ?ctx1 (map (\<lambda>ws. Reply (command ws)) wss)"
      using True a Cons.prems by (simp add: cmdHashAdd_command)
    obtain sz where b: "processBufferFile L [] ?ctx1 (map (\<lambda>ws. Reply (command ws)) wss) =
       Some (0, ?ctx1\<lparr>cmd_hash := fold (\<lambda>ws ht. engine_step L ht ws) wss (cmd_hash ?ctx1),
                  cmd_buffer := buffered (cmd_buffer ?ctx1)
                     (concat (map redisFormatCommandArgv (filter passthru wss)))
                     (of_nat (length (filter passthru wss))) sz,
                  ctx_cmd_count := ctx_cmd_count ?ctx1 + of_nat (length wss)\<rparr>, [])"
      using Cons.IH [of ?ctx1] Cons.prems by auto
    show ?thesis
      unfolding step b using True
      by (intro exI [of _ sz]) (simp add: buffered_buffered add.assoc add.commute)
  next
    case False
    let ?ctx1 = "ctx\<lparr>cmd_hash := engine_step L (cmd_hash ctx) ws,
                      ctx_cmd_count := ctx_cmd_count ctx + 1\<rparr>"
    have step: "processBufferFile L [] ctx (map (\<lambda>ws. Reply (command ws)) (ws # wss)) =
        processBufferFile L [] ?ctx1 (map (\<lambda>ws. Reply (command ws)) wss)"
      using False Cons.prems by (simp add: cmdHashAdd_command)
    obtain sz where b: "processBufferFile L [] ?ctx1 (map (\<lambda>ws. Reply (command ws)) wss) =
       Some (0, ?ctx1\<lparr>cmd_hash := fold (\<lambda>ws ht. engine_step L ht ws) wss (cmd_hash ?ctx1),
                  cmd_buffer := buffered (cmd_buffer ?ctx1)
                     (concat (map redisFormatCommandArgv (filter passthru wss)))
                     (of_nat (length (filter passthru wss))) sz,
                  ctx_cmd_count := ctx_cmd_count ?ctx1 + of_nat (length wss)\<rparr>, [])"
      using Cons.IH [of ?ctx1] Cons.prems by auto
    show ?thesis
      unfolding step b using False
      by (intro exI [of _ sz]) (simp add: add.assoc add.commute)
  qed
qed

lemma cmdHashGetCount_appended [simp]:
  "cmdHashGetCount (appended ht s sz) = cmdHashGetCount ht"
  by (simp add: cmdHashGetCount_def)

lemma cmdHashGetCount_emptied [simp]:
  "cmdHashGetCount (emptied ht) = cmdHashGetCount ht"
  by (simp add: cmdHashGetCount_def)

text \<open>All that the pipeline writes for the aggregated commands.\<close>

definition agg_bytes :: "libc \<Rightarrow> cmdHash \<Rightarrow> string" where
  "agg_bytes L ht = zincrby_bytes L (z_cmds ht) @ sadd_bytes (s_cmds ht)"

lemma appendAggCommands_Nil:
  assumes "container_ok (z_cmds (cmd_hash ctx))" and "container_ok (s_cmds (cmd_hash ctx))"
    and "\<not> stats ctx"
  shows "\<exists>sz sz'. appendAggCommands L [] ctx =
     Some (0, ctx\<lparr>cmd_hash := appended (emptied (cmd_hash ctx)) (agg_bytes L (cmd_hash ctx)) sz,
                  cmd_buffer := buffered (cmd_buffer ctx) (agg_bytes L (cmd_hash ctx))
                     (cmdHashGetCount (cmd_hash ctx)) sz'\<rparr>, [])"
proof -
  let ?ht = "cmd_hash ctx"
  obtain sz where a: "cmdHashGetCommands L [] ?ht =
      Some (0, appended (emptied ?ht) (agg_bytes L ?ht) sz, [])"
    using cmdHashGetCommands_Nil [OF assms(1,2)] by (auto simp: agg_bytes_def)
  obtain sz' where b: "cmdBufferAppend [] (cmd_buffer ctx) (agg_bytes L ?ht) (cmdHashGetCount ?ht) =
      (0, buffered (cmd_buffer ctx) (agg_bytes L ?ht) (cmdHashGetCount ?ht) sz', [])"
    using cmdBufferAppend_buffered by blast
  have "appendAggCommands L [] ctx =
     Some (0, ctx\<lparr>cmd_hash := appended (emptied ?ht) (agg_bytes L ?ht) sz,
                  cmd_buffer := buffered (cmd_buffer ctx) (agg_bytes L ?ht)
                     (cmdHashGetCount ?ht) sz'\<rparr>, [])"
    using assms(3) a b by (simp add: appendAggCommands_def contents_def)
  then show ?thesis by blast
qed

text \<open>The engine and the context that \<open>initContext\<close> builds.\<close>

definition empty_container :: "nat \<Rightarrow> nat \<Rightarrow> cmdHashContainer" where
  "empty_container ks ms =
     \<lparr>ksize = ks, msize = ms, keys = 0, members = 0, str_len = None,
      bucket = replicate ks [], corrupt = False\<rparr>"

definition empty_hash :: "nat \<Rightarrow> nat \<Rightarrow> cmdHash" where
  "empty_hash ks ms =
     \<lparr>s_cmds = empty_container ks ms, z_cmds = empty_container ks ms,
      h_buf = None, h_size = 0, h_len = 0\<rparr>"

definition empty_buffer :: cmdBuffer where
  "empty_buffer = \<lparr>buf = [], bsize = INITIAL_ALLOC, pos = 0, cmd_count = 0\<rparr>"

definition ctx0 :: "bool \<Rightarrow> nat \<Rightarrow> nat \<Rightarrow> optimizerContext" where
  "ctx0 st ks ms =
     \<lparr>stats = st, ctx_cmd_count = 0, cmd_buffer = empty_buffer, cmd_hash = empty_hash ks ms\<rparr>"

lemma cmdHashCreate_Nil:
  "0 < ks \<Longrightarrow> 0 < ms \<Longrightarrow> cmdHashCreate [] ks ms = (Some (empty_hash ks ms), [])"
  by (simp add: cmdHashCreate_def container_create_def empty_hash_def empty_container_def)

lemma initContext_Nil:
  "0 < ks \<Longrightarrow> 0 < ms \<Longrightarrow> initContext [] st ks ms = (Some (ctx0 st ks ms), [])"
  by (simp add: initContext_def cmdBufferCreate_def cmdHashCreate_Nil ctx0_def empty_buffer_def)

text \<open>The engine after a stream of commands.\<close>

definition engine_after :: "libc \<Rightarrow> cmdHash \<Rightarrow> string list list \<Rightarrow> cmdHash" where
  "engine_after L ht wss = fold (\<lambda>ws ht'. engine_step L ht' ws) wss ht"

definition passthru_bytes :: "string list list \<Rightarrow> string" where
  "passthru_bytes wss = concat (map redisFormatCommandArgv (filter passthru wss))"

lemma run_main_Nil:
  assumes "\<not> corrupt (z_cmds (cmd_hash ctx))" and "\<not> corrupt (s_cmds (cmd_hash ctx))"
    and "container_ok (z_cmds (engine_after L (cmd_hash ctx) wss))"
    and "container_ok (s_cmds (engine_after L (cmd_hash ctx) wss))"
    and "\<not> stats ctx"
  shows "run_main L [] ctx (map (\<lambda>ws. Reply (command ws)) wss) =
     Some (if ctx_cmd_count ctx + of_nat (length wss) \<noteq> 0
           then (0, Some (buf (cmd_buffer ctx) @ passthru_bytes wss
                            @ agg_bytes L (engine_after L (cmd_hash ctx) wss)))
           else (1, None))"
proof -
  obtain sz1 where a: "processBufferFile L [] ctx (map (\<lambda>ws. Reply (command ws)) wss) =
     Some (0, ctx\<lparr>cmd_hash := engine_after L (cmd_hash ctx) wss,
                  cmd_buffer := buffered (cmd_buffer ctx) (passthru_bytes wss)
                     (of_nat (length (filter passthru wss))) sz1,
                  ctx_cmd_count := ctx_cmd_count ctx + of_nat (length wss)\<rparr>, [])"
    using processBufferFile_Nil [OF assms(1,2), of L wss]
    by (auto simp: engine_after_def passthru_bytes_def)
  let ?ctx1 = "ctx\<lparr>cmd_hash := engine_after L (cmd_hash ctx) wss,
                  cmd_buffer := buffered (cmd_buffer ctx) (passthru_bytes wss)
                     (of_nat (length (filter passthru wss))) sz1,
                  ctx_cmd_count := ctx_cmd_count ctx + of_nat (length wss)\<rparr>"
  obtain sz sz' where b: "appendAggCommands L [] ?ctx1 =
     Some (0, ?ctx1\<lparr>cmd_hash := appended (emptied (cmd_hash ?ctx1)) (agg_bytes L (cmd_hash ?ctx1)) sz,
                  cmd_buffer := buffered (cmd_buffer ?ctx1) (agg_bytes L (cmd_hash ?ctx1))
                     (cmdHashGetCount (cmd_hash ?ctx1)) sz'\<rparr>, [])"
    using appendAggCommands_Nil [of ?ctx1 L] assms(3,4,5) by auto
  have c: "run_main L [] ctx (map (\<lambda>ws. Reply (command ws)) wss) =
      (case appendAggCommands L [] ?ctx1 of
         None \<Rightarrow> None
       | Some (rc', ctx2, h2) \<Rightarrow>
           if rc' < 0 then Some (1, None)
           else if \<not> stats ctx2 then
             (if ctx_cmd_count ctx2 \<noteq> 0 then Some (0, Some (buf (cmd_buffer ctx2)))
              else Some (1, None))
           else Some (0, None))"
    by (simp only: run_main_def a) simp
  show ?thesis
    unfolding c b using assms(5) by simp
qed

section \<open>Evaluating runs\<close>

lemmas step_defs = engine_after_def engine_step_def zincrby_step_def sadd_step_def member_step_def
  key_place_def key_insert_def member_place_def member_insert_def member_counted_def table_of_def
  load_key_def store_key_def add_score_def GET_BUCKET_def strndup_def NUL_def
  empty_hash_def empty_container_def Let_def

lemmas sample_defs = libc_sample_def strtod_sample_def dadd_sample_def fmt_f_sample_def

lemmas ok_defs = container_ok_def key_ok_def readable_key_def readable_member_def
  empty_container_def

lemma cmd_hash_ctx0: "cmd_hash (ctx0 st ks ms) = empty_hash ks ms"
  by (simp add: ctx0_def)

lemma ctx0_clean:
  "\<not> corrupt (z_cmds (cmd_hash (ctx0 st ks ms)))"
  "\<not> corrupt (s_cmds (cmd_hash (ctx0 st ks ms)))"
  "stats (ctx0 st ks ms) = st"
  "buf (cmd_buffer (ctx0 st ks ms)) = []"
  "ctx_cmd_count (ctx0 st ks ms) = 0"
  by (simp_all add: ctx0_def empty_hash_def empty_container_def empty_buffer_def)

section \<open>A delta that is no number\<close>

lemma engine_after_abc:
  "engine_after libc_sample (empty_hash 1 1) [[''ZINCRBY'', ''k'', ''abc'', ''m'']] =
   \<lparr>s_cmds = empty_container 1 1,
    z_cmds = \<lparr>ksize = 1, msize = 1, keys = 1, members = 1, str_len = None,
       bucket = [[\<lparr>key = ''k'', klen = 1, count = 1,
                   mbucket = [[\<lparr>member = ''m'', mlen = 1, score = 0\<rparr>]]\<rparr>]],
       corrupt = False\<rparr>,
    h_buf = None, h_size = 0, h_len = 0\<rparr>"
  by (simp add: step_defs get_type_command lit_zincrby sample_defs)

text \<open>
  C4 fails on the stream that holds the one command ZINCRBY k abc m: the run ends with
  exit status 0 and writes an output, the command ZINCRBY k 0.000000 m.
\<close>

theorem malformed_delta_counterexample:
  "optimize libc_sample [] False 1 1 [Reply (command [''ZINCRBY'', ''k'', ''abc'', ''m''])] =
     Some (0, Some (redisFormatCommandArgv [''ZINCRBY'', ''k'', ''0.000000'', ''m'']))"
proof -
  let ?wss = "[[''ZINCRBY'', ''k'', ''abc'', ''m'']]"
  let ?ctx = "ctx0 False 1 1"
  have ok: "container_ok (z_cmds (engine_after libc_sample (cmd_hash ?ctx) ?wss))"
      "container_ok (s_cmds (engine_after libc_sample (cmd_hash ?ctx) ?wss))"
    unfolding cmd_hash_ctx0 engine_after_abc by (simp_all add: ok_defs)
  have p: "passthru_bytes ?wss = []"
    by (simp add: passthru_bytes_def passthru_def get_type_command lit_zincrby)
  have a: "agg_bytes libc_sample (engine_after libc_sample (cmd_hash ?ctx) ?wss) =
      redisFormatCommandArgv [''ZINCRBY'', ''k'', ''0.000000'', ''m'']"
    unfolding cmd_hash_ctx0 engine_after_abc
    by (simp add: agg_bytes_def zincrby_bytes_def sadd_bytes_def zincrby_wire_def
          empty_container_def sample_defs)
  have n: "\<not> stats ?ctx"
    by (simp add: ctx0_clean)
  have "run_main libc_sample [] ?ctx (map (\<lambda>ws. Reply (command ws)) ?wss) =
        Some (0, Some (redisFormatCommandArgv [''ZINCRBY'', ''k'', ''0.000000'', ''m'']))"
    unfolding run_main_Nil [OF ctx0_clean(1,2) ok n] p a ctx0_clean
    by simp
  then show ?thesis
    by (simp add: optimize_def initContext_Nil)
qed

section \<open>Failures the pipeline drops\<close>

lemma initContext_7:
  "0 < ks \<Longrightarrow> 0 < ms \<Longrightarrow>
   initContext (True # True # True # True # True # True # True # h) st ks ms =
     (Some (ctx0 st ks ms), h)"
  by (simp add: initContext_def cmdBufferCreate_def cmdHashCreate_def container_create_def
      alloc_def ctx0_def empty_buffer_def empty_hash_def empty_container_def)

lemma processBufferFile_passthru_failed:
  "get_type r = Some TYPE_UNSUPPORTED \<Longrightarrow>
   processBufferFile L (False # h) ctx (Reply r # rest) =
     processBufferFile L h (ctx\<lparr>ctx_cmd_count := ctx_cmd_count ctx + 1\<rparr>) rest"
  by (simp add: cmdHashAdd_def cmdBufferAddReply_def alloc_def)

lemma hash_zincrby_cmd_failed:
  "\<not> corrupt (z_cmds ht) \<Longrightarrow>
   scan_keys (bucket (z_cmds ht) ! GET_BUCKET k (ksize (z_cmds ht))) k = None \<Longrightarrow>
   hash_zincrby_cmd L (False # h) ht (command [n, k, d, m]) = Some (- 1, ht, h)"
  by (simp add: hash_zincrby_cmd_def command_def find_key_def alloc_def Let_def)

lemma get_type_zincrby: "get_type (command [''ZINCRBY'', k, d, m]) = Some TYPE_ZINCRBY"
  by (simp add: get_type_command lit_zincrby)

lemma processBufferFile_zincrby_failed:
  "\<not> corrupt (z_cmds (cmd_hash ctx)) \<Longrightarrow>
   scan_keys (bucket (z_cmds (cmd_hash ctx)) ! GET_BUCKET k (ksize (z_cmds (cmd_hash ctx)))) k = None \<Longrightarrow>
   processBufferFile L (False # h) ctx (Reply (command [''ZINCRBY'', k, d, m]) # rest) =
     processBufferFile L h (ctx\<lparr>ctx_cmd_count := ctx_cmd_count ctx + 1\<rparr>) rest"
  by (simp add: cmdHashAdd_def get_type_zincrby hash_zincrby_cmd_failed)


lemma get_type_set: "get_type (command [''SET'', x, v]) = Some TYPE_UNSUPPORTED"
  by (simp add: get_type_command cstr_Cons cstr_Nil tolower_def NUL_def)

lemma get_type_sadd: "get_type (command (''SADD'' # k # m # ms)) = Some TYPE_SADD"
  by (simp add: get_type_command lit_sadd)

lemma run_main_step:
  "processBufferFile L h ctx input = processBufferFile L h' ctx' input' \<Longrightarrow>
   run_main L h ctx input = run_main L h' ctx' input'"
  by (simp add: run_main_def)

lemma engine_after_sadd:
  "engine_after libc_sample (empty_hash 1 1) [[''SADD'', ''s'', ''a'']] =
   \<lparr>s_cmds = \<lparr>ksize = 1, msize = 1, keys = 1, members = 1, str_len = None,
       bucket = [[\<lparr>key = ''s'', klen = 1, count = 1,
                   mbucket = [[\<lparr>member = ''a'', mlen = 1, score = 0\<rparr>]]\<rparr>]],
       corrupt = False\<rparr>,
    z_cmds = empty_container 1 1,
    h_buf = None, h_size = 0, h_len = 0\<rparr>"
  by (simp add: step_defs get_type_sadd)

lemma engine_after_set:
  "engine_after libc_sample (empty_hash 1 1) [[''SET'', ''x'', ''1'']] = empty_hash 1 1"
  by (simp add: engine_after_def engine_step_def get_type_set)

text \<open>
  C7 at two runs in which the eighth allocation fails (the seven before it build the
  context). In the first the pass-through command SET x 1 is not appended; in the
  second the command ZINCRBY z 1 m is not merged. Both runs go on, end with exit status
  0 and write an output that lacks the command.
\<close>

theorem failed_allocation_dropped:
  "optimize libc_sample [True, True, True, True, True, True, True, False] False 1 1
     [Reply (command [''SET'', ''x'', ''1'']), Reply (command [''SADD'', ''s'', ''a''])] =
     Some (0, Some (redisFormatCommandArgv [''SADD'', ''s'', ''a'']))
   \<and> optimize libc_sample [True, True, True, True, True, True, True, False] False 1 1
     [Reply (command [''ZINCRBY'', ''z'', ''1'', ''m'']), Reply (command [''SET'', ''x'', ''1''])] =
     Some (0, Some (redisFormatCommandArgv [''SET'', ''x'', ''1'']))"
proof (intro conjI)
  let ?ctx = "(ctx0 False 1 1)\<lparr>ctx_cmd_count := ctx_cmd_count (ctx0 False 1 1) + 1\<rparr>"
  have h: "cmd_hash ?ctx = empty_hash 1 1"
    by (simp add: ctx0_def)
  have clean: "\<not> corrupt (z_cmds (cmd_hash ?ctx))" "\<not> corrupt (s_cmds (cmd_hash ?ctx))"
      "\<not> stats ?ctx"
    by (simp_all add: ctx0_def empty_hash_def empty_container_def)
  have c: "ctx_cmd_count ?ctx + of_nat (length [x]) \<noteq> 0" "buf (cmd_buffer ?ctx) = []" for x :: "string list"
    by (simp_all add: ctx0_def empty_buffer_def)
  show "optimize libc_sample [True, True, True, True, True, True, True, False] False 1 1
     [Reply (command [''SET'', ''x'', ''1'']), Reply (command [''SADD'', ''s'', ''a''])] =
     Some (0, Some (redisFormatCommandArgv [''SADD'', ''s'', ''a'']))"
  proof -
    let ?wss = "[[''SADD'', ''s'', ''a'']]"
    have ok: "container_ok (z_cmds (engine_after libc_sample (cmd_hash ?ctx) ?wss))"
        "container_ok (s_cmds (engine_after libc_sample (cmd_hash ?ctx) ?wss))"
      unfolding h engine_after_sadd by (simp_all add: ok_defs)
    have p: "passthru_bytes ?wss = []"
      by (simp add: passthru_bytes_def passthru_def get_type_sadd)
    have a: "agg_bytes libc_sample (engine_after libc_sample (cmd_hash ?ctx) ?wss) =
        redisFormatCommandArgv [''SADD'', ''s'', ''a'']"
      unfolding h engine_after_sadd
      by (simp add: agg_bytes_def zincrby_bytes_def sadd_bytes_def sadd_wire_def empty_container_def)
    have "run_main libc_sample [False] (ctx0 False 1 1)
            [Reply (command [''SET'', ''x'', ''1'']), Reply (command [''SADD'', ''s'', ''a''])] =
          run_main libc_sample [] ?ctx (map (\<lambda>ws. Reply (command ws)) ?wss)"
      by (rule run_main_step)
         (simp only: processBufferFile_passthru_failed [OF get_type_set] list.map)
    also have "\<dots> = Some (0, Some (redisFormatCommandArgv [''SADD'', ''s'', ''a'']))"
      unfolding run_main_Nil [OF clean(1,2) ok clean(3)] p a using c by simp
    finally show ?thesis
      by (simp add: optimize_def initContext_7)
  qed
  show "optimize libc_sample [True, True, True, True, True, True, True, False] False 1 1
     [Reply (command [''ZINCRBY'', ''z'', ''1'', ''m'']), Reply (command [''SET'', ''x'', ''1''])] =
     Some (0, Some (redisFormatCommandArgv [''SET'', ''x'', ''1'']))"
  proof -
    let ?wss = "[[''SET'', ''x'', ''1'']]"
    have ok: "container_ok (z_cmds (engine_after libc_sample (cmd_hash ?ctx) ?wss))"
        "container_ok (s_cmds (engine_after libc_sample (cmd_hash ?ctx) ?wss))"
      unfolding h engine_after_set by (simp_all add: ok_defs empty_hash_def)
    have p: "passthru_bytes ?wss = redisFormatCommandArgv [''SET'', ''x'', ''1'']"
      by (simp add: passthru_bytes_def passthru_def get_type_set)
    have a: "agg_bytes libc_sample (engine_after libc_sample (cmd_hash ?ctx) ?wss) = []"
      unfolding h engine_after_set
      by (simp add: agg_bytes_def zincrby_bytes_def sadd_bytes_def empty_hash_def empty_container_def)
    have "processBufferFile libc_sample [False] (ctx0 False 1 1)
            [Reply (command [''ZINCRBY'', ''z'', ''1'', ''m'']), Reply (command [''SET'', ''x'', ''1''])] =
          processBufferFile libc_sample [] ?ctx [Reply (command [''SET'', ''x'', ''1''])]"
      by (rule processBufferFile_zincrby_failed)
         (simp_all add: ctx0_def empty_hash_def empty_container_def GET_BUCKET_def)
    then have "run_main libc_sample [False] (ctx0 False 1 1)
            [Reply (command [''ZINCRBY'', ''z'', ''1'', ''m'']), Reply (command [''SET'', ''x'', ''1''])] =
          run_main libc_sample [] ?ctx (map (\<lambda>ws. Reply (command ws)) ?wss)"
      by (simp only: run_main_def list.map)
    also have "\<dots> = Some (0, Some (redisFormatCommandArgv [''SET'', ''x'', ''1'']))"
      unfolding run_main_Nil [OF clean(1,2) ok clean(3)] p a using c by simp
    finally show ?thesis
      by (simp add: optimize_def initContext_7)
  qed
qed

section \<open>The same member added again and again\<close>

lemma GET_BUCKET_less [simp]: "0 < n \<Longrightarrow> GET_BUCKET s n < n"
  by (simp add: GET_BUCKET_def)

lemma cstr_strndup: "cstr (strndup s (length s)) = cstr s"
  by (simp add: cstr_def strndup_def)

lemma strncmp_strndup_left [simp]: "strncmp (strndup s (length s)) s (length s) = 0"
  by (simp add: strncmp_0_iff cstr_strndup)

lemma strncmp_strndup_right [simp]: "strncmp s (strndup s (length s)) (length s) = 0"
  by (simp add: strncmp_0_iff cstr_strndup)

lemma strndup_no_NUL: "NUL \<notin> set s \<Longrightarrow> strndup s (length s) = s"
  by (auto simp: strndup_def takeWhile_eq_all_conv)


lemma ucast_down_up: "(ucast (ucast (n :: 32 word) :: 64 word) :: 32 word) = n"
  by (rule bit_word_eqI) (auto simp: bit_simps)


lemma hits_ucast [simp]: "hits \<lparr>member = s, mlen = l, score = ucast (n :: 32 word)\<rparr> = n"
  by (simp add: hits_def ucast_down_up)













section \<open>The older ZINCRBY-only table (zhash.h, zhash.c)\<close>

text \<open>
  \<open>zMemberList\<close>, \<open>zKeyList\<close> and \<open>zHash\<close>, modelled as the structures of cmdhash.h
  are: the fields \<open>member\<close>, \<open>len\<close>, \<open>value\<close> of a member are \<open>zmember\<close>, \<open>zmlen\<close>,
  \<open>zvalue\<close>, those of a key are \<open>zkey\<close>, \<open>zklen\<close>, \<open>zmbucket\<close>, and those of the table
  carry the prefix \<open>zh\<close>. \<open>zHashCreate\<close> uses \<open>calloc\<close>, so every counter starts at 0.
  \<open>zh_corrupt\<close>, no field of the source, records a node left linked by a failed
  \<open>strndup\<close>.
\<close>

record zMemberList =
  zmember :: string
  zmlen :: nat
  zvalue :: real

record zKeyList =
  zkey :: string
  zklen :: nat
  zmbucket :: "zMemberList list list"

record zHash =
  zh_ksize :: nat
  zh_msize :: nat
  zh_count :: "32 word"
  zh_str_len :: "32 word"
  zh_bucket :: "zKeyList list list"
  zh_buf :: "string option"
  zh_size :: nat
  zh_len :: nat
  zh_corrupt :: bool

definition zHashCreate :: "heap \<Rightarrow> nat \<Rightarrow> nat \<Rightarrow> zHash option \<times> heap" where
  "zHashCreate h ks ms =
     (if ks < 1 \<or> ms < 1 then (None, h)
      else case alloc h of
        (False, h1) \<Rightarrow> (None, h1)
      | (True, h1) \<Rightarrow>
          (case alloc h1 of
             (False, h2) \<Rightarrow> (None, h2)
           | (True, h2) \<Rightarrow>
               (Some \<lparr>zh_ksize = ks, zh_msize = ms, zh_count = 0, zh_str_len = 0,
                       zh_bucket = replicate ks [], zh_buf = None, zh_size = 0, zh_len = 0,
                       zh_corrupt = False\<rparr>, h2)))"

fun zscan_members :: "zMemberList list \<Rightarrow> string \<Rightarrow> nat option" where
  "zscan_members [] m = None"
| "zscan_members (item # rest) m =
     (if length m = zmlen item \<and> strncmp m (zmember item) (length m) = 0 then Some 0
      else map_option Suc (zscan_members rest m))"

fun zscan_keys :: "zKeyList list \<Rightarrow> string \<Rightarrow> nat option" where
  "zscan_keys [] k = None"
| "zscan_keys (node # rest) k =
     (if zklen node = length k \<and> strncmp (zkey node) k (length k) = 0 then Some 0
      else map_option Suc (zscan_keys rest k))"

text \<open>\<open>__findMember\<close> of zhash.c: as \<open>__find_member\<close>, without a hit count.\<close>

definition findMember ::
    "heap \<Rightarrow> zHash \<Rightarrow> zKeyList \<Rightarrow> string \<Rightarrow> (nat \<times> nat) option \<times> zHash \<times> zKeyList \<times> heap" where
  "findMember h ht k m =
     (let num = GET_BUCKET m (zh_msize ht) in
      case (if zmbucket k = [] then alloc h else (True, h)) of
        (False, h0) \<Rightarrow> (None, ht, k, h0)
      | (True, h0) \<Rightarrow>
          (let k0 = (if zmbucket k = [] then k\<lparr>zmbucket := replicate (zh_msize ht) []\<rparr> else k);
               chain = zmbucket k0 ! num
           in case zscan_members chain m of
                Some j \<Rightarrow> (Some (num, j), ht, k0, h0)
              | None \<Rightarrow>
                  (case alloc h0 of
                     (False, h1) \<Rightarrow> (None, ht, k0, h1)
                   | (True, h1) \<Rightarrow>
                       (case alloc h1 of
                          (False, h2) \<Rightarrow>
                            (None, ht\<lparr>zh_corrupt := True\<rparr>,
                             k0\<lparr>zmbucket := (zmbucket k0)[num := chain @
                                   [\<lparr>zmember = [], zmlen = 0, zvalue = 0\<rparr>]]\<rparr>, h2)
                        | (True, h2) \<Rightarrow>
                            (Some (num, length chain),
                             ht\<lparr>zh_str_len := zh_str_len ht + of_nat (length m),
                                zh_count := zh_count ht + 1\<rparr>,
                             k0\<lparr>zmbucket := (zmbucket k0)[num := chain @
                                   [\<lparr>zmember = strndup m (length m), zmlen = length m,
                                     zvalue = 0\<rparr>]]\<rparr>,
                             h2)))))"

text \<open>\<open>__findKey\<close> of zhash.c.\<close>

definition findKey :: "heap \<Rightarrow> zHash \<Rightarrow> string \<Rightarrow> (nat \<times> nat) option \<times> zHash \<times> heap" where
  "findKey h ht k =
     (let num = GET_BUCKET k (zh_ksize ht); chain = zh_bucket ht ! num in
      case zscan_keys chain k of
        Some i \<Rightarrow> (Some (num, i), ht, h)
      | None \<Rightarrow>
          (case alloc h of
             (False, h1) \<Rightarrow> (None, ht, h1)
           | (True, h1) \<Rightarrow>
               (case alloc h1 of
                  (False, h2) \<Rightarrow> (None, ht\<lparr>zh_corrupt := True\<rparr>, h2)
                | (True, h2) \<Rightarrow>
                    (Some (num, length chain),
                     ht\<lparr>zh_bucket := (zh_bucket ht)[num := chain @
                          [\<lparr>zkey = strndup k (length k), zklen = length k, zmbucket = []\<rparr>]]\<rparr>,
                     h2))))"

definition zstore_key :: "zHash \<Rightarrow> nat \<times> nat \<Rightarrow> zKeyList \<Rightarrow> zHash" where
  "zstore_key ht p k = ht\<lparr>zh_bucket := (zh_bucket ht)[fst p := (zh_bucket ht ! fst p)[snd p := k]]\<rparr>"

definition zadd_value :: "zKeyList \<Rightarrow> nat \<times> nat \<Rightarrow> real \<Rightarrow> zKeyList" where
  "zadd_value k p d =
     k\<lparr>zmbucket := (zmbucket k)[fst p := (zmbucket k ! fst p)[snd p :=
          (zmbucket k ! fst p ! snd p)\<lparr>zvalue := zvalue (zmbucket k ! fst p ! snd p) + d\<rparr>]]\<rparr>"

text \<open>
  \<open>zHashAdd\<close>. The key and the member come as pointers that may be NULL (\<open>None\<close>),
  \<open>klen\<close> and \<open>mlen\<close> are the lengths of what they point to, and \<open>!value\<close> holds for a
  delta that is zero. \<open>None\<close> as result is the walk of a corrupt table.
\<close>

definition zHashAdd ::
    "heap \<Rightarrow> zHash \<Rightarrow> string option \<Rightarrow> real \<Rightarrow> string option \<Rightarrow> (int \<times> zHash \<times> heap) option" where
  "zHashAdd h ht key_p v member_p =
     (case (key_p, member_p) of
        (Some k, Some m) \<Rightarrow>
          if length k < 1 \<or> length m < 1 \<or> v = 0 then Some (- 1, ht, h)
          else if zh_corrupt ht then None
          else (case findKey h ht k of
             (None, ht1, h1) \<Rightarrow> Some (- 1, ht1, h1)
           | (Some p, ht1, h1) \<Rightarrow>
               (case findMember h1 ht1 (zh_bucket ht1 ! fst p ! snd p) m of
                  (None, ht2, k2, h2) \<Rightarrow> Some (- 1, zstore_key ht2 p k2, h2)
                | (Some q, ht2, k2, h2) \<Rightarrow> Some (0, zstore_key ht2 p (zadd_value k2 q v), h2)))
      | _ \<Rightarrow> Some (- 1, ht, h))"

text \<open>
  \<open>zHashAddReply\<close>; \<open>strtod\<close> of a NULL \<open>str\<close> is undefined (\<open>None\<close>). In this section
  a \<open>double\<close> stands for a real number (a member of this table has no union), and
  \<open>strtod\<close> comes as a parameter with such a result.
\<close>

definition zHashAddReply ::
    "(string \<Rightarrow> real) \<Rightarrow> heap \<Rightarrow> zHash \<Rightarrow> redisReply \<Rightarrow> (int \<times> zHash \<times> heap) option" where
  "zHashAddReply strtod_r h ht reply =
     (case element reply of
        [e0, e1, e2, e3] \<Rightarrow>
          (case str e2 of
             None \<Rightarrow> None
           | Some d \<Rightarrow> zHashAdd h ht (str e1) (strtod_r d) (str e3))
      | _ \<Rightarrow> Some (- 1, ht, h))"

section \<open>What a numeric add rejects\<close>

lemma findKey_Nil: "\<exists>p ht'. findKey [] ht k = (Some p, ht', [])"
  by (simp add: findKey_def Let_def split: option.splits)

lemma findMember_Nil: "\<exists>q ht' k'. findMember [] ht k m = (Some q, ht', k', [])"
  by (simp add: findMember_def Let_def split: option.splits)

lemma zHashAdd_accepts:
  assumes "k \<noteq> []" and "m \<noteq> []" and "v \<noteq> 0" and "\<not> zh_corrupt ht"
  shows "\<exists>ht'. zHashAdd [] ht (Some k) v (Some m) = Some (0, ht', [])"
proof -
  obtain p ht1 where a: "findKey [] ht k = (Some p, ht1, [])"
    using findKey_Nil by blast
  obtain q ht2 k2 where b: "findMember [] ht1 (zh_bucket ht1 ! fst p ! snd p) m = (Some q, ht2, k2, [])"
    using findMember_Nil by blast
  from assms a b show ?thesis
    by (simp add: zHashAdd_def)
qed

lemma hash_zincrby_cmd_accepts:
  "\<not> corrupt (z_cmds ht) \<Longrightarrow>
   \<exists>ht'. hash_zincrby_cmd L [] ht (command [n, k, d, m]) = Some (0, ht', [])"
  by (simp add: hash_zincrby_cmd_Nil)

text \<open>
  C3, as the code has it. \<open>zHashAdd\<close> of zhash.c returns - 1 and leaves the table as
  it is when the key is empty, the member is empty or the delta is zero: a zero delta
  is rejected like an empty key. With a key and a member that are not empty and a delta
  that is not zero it returns 0 when no allocation fails. \<open>__hash_zincrby_cmd\<close> of
  cmdhash.c, which the program is built from, checks nothing: whatever the key, the
  member (empty ones too) and the delta text are, it returns 0 when no allocation
  fails.
\<close>

theorem numeric_add_checks:
  "(k = [] \<or> m = [] \<or> v = 0 \<longrightarrow> zHashAdd h zt (Some k) v (Some m) = Some (- 1, zt, h))
   \<and> (k \<noteq> [] \<and> m \<noteq> [] \<and> v \<noteq> 0 \<and> \<not> zh_corrupt zt \<longrightarrow>
        (\<exists>zt'. zHashAdd [] zt (Some k) v (Some m) = Some (0, zt', [])))
   \<and> (\<not> corrupt (z_cmds ht) \<longrightarrow>
        (\<exists>ht'. hash_zincrby_cmd L [] ht (command [n, k, d, m]) = Some (0, ht', [])))"
  using zHashAdd_accepts [of k m v zt] hash_zincrby_cmd_accepts [of ht L n k d m]
  by (auto simp: zHashAdd_def)


definition empty_zhash :: "nat \<Rightarrow> nat \<Rightarrow> zHash" where
  "empty_zhash ks ms =
     \<lparr>zh_ksize = ks, zh_msize = ms, zh_count = 0, zh_str_len = 0, zh_bucket = replicate ks [],
      zh_buf = None, zh_size = 0, zh_len = 0, zh_corrupt = False\<rparr>"

lemma zHashCreate_Nil:
  "0 < ks \<Longrightarrow> 0 < ms \<Longrightarrow> zHashCreate [] ks ms = (Some (empty_zhash ks ms), [])"
  by (simp add: zHashCreate_def empty_zhash_def)

theorem numeric_add_checks_witness:
  "zHashAdd [] (empty_zhash 1 1) (Some ''k'') 0 (Some ''m'') = Some (- 1, empty_zhash 1 1, [])
   \<and> (\<exists>zt'. zHashAdd [] (empty_zhash 1 1) (Some ''k'') 2 (Some ''m'') = Some (0, zt', []))
   \<and> (\<exists>ht'. hash_zincrby_cmd libc_sample [] (empty_hash 1 1)
                (command [''ZINCRBY'', [], ''0'', ''m'']) = Some (0, ht', []))"
proof -
  have c: "\<not> zh_corrupt (empty_zhash 1 1)" "\<not> corrupt (z_cmds (empty_hash 1 1))"
    by (simp_all add: empty_zhash_def empty_hash_def empty_container_def)
  from numeric_add_checks [of "''k''" "''m''" 0 "[]" "empty_zhash 1 1"]
  have 1: "zHashAdd [] (empty_zhash 1 1) (Some ''k'') 0 (Some ''m'') = Some (- 1, empty_zhash 1 1, [])"
    by simp
  from numeric_add_checks [of "''k''" "''m''" 2 "[]" "empty_zhash 1 1"] c
  have 2: "\<exists>zt'. zHashAdd [] (empty_zhash 1 1) (Some ''k'') 2 (Some ''m'') = Some (0, zt', [])"
    by simp
  from numeric_add_checks [of "[]" "''m''" 0 "[]" "empty_zhash 1 1" "empty_hash 1 1"
      libc_sample "''ZINCRBY''" "''0''"] c
  have 3: "\<exists>ht'. hash_zincrby_cmd libc_sample [] (empty_hash 1 1)
                (command [''ZINCRBY'', [], ''0'', ''m'']) = Some (0, ht', [])"
    by simp
  from 1 2 3 show ?thesis by blast
qed

text \<open>
  In zhash.c a zero delta with a key and a member that are not empty is rejected; in
  cmdhash.c an empty key is accepted.
\<close>

theorem numeric_add_counterexample:
  "map_option fst (zHashAdd [] (empty_zhash 1 1) (Some ''k'') 0 (Some ''m'')) = Some (- 1)
   \<and> map_option fst (hash_zincrby_cmd libc_sample [] (empty_hash 1 1)
        (command [''ZINCRBY'', [], ''1'', ''m''])) = Some 0"
proof -
  have "\<not> corrupt (z_cmds (empty_hash 1 1))"
    by (simp add: empty_hash_def empty_container_def)
  then show ?thesis
    by (simp add: zHashAdd_def hash_zincrby_cmd_Nil)
qed

section \<open>Invariants of a container\<close>

lemma concat_update:
  "i < length xss \<Longrightarrow>
   concat (xss[i := ys]) = concat (take i xss) @ ys @ concat (drop (Suc i) xss)"
  by (simp add: upd_conv_take_nth_drop)

lemma concat_nth:
  "i < length xss \<Longrightarrow>
   concat xss = concat (take i xss) @ xss ! i @ concat (drop (Suc i) xss)"
  using concat_update [of i xss "xss ! i"] by simp

lemma concat_replace:
  assumes "i < length xss" and "j < length (xss ! i)"
  shows "\<exists>X Y. concat xss = X @ (xss ! i ! j) # Y
              \<and> concat (xss[i := (xss ! i)[j := x]]) = X @ x # Y"
proof -
  let ?X = "concat (take i xss) @ take j (xss ! i)"
  let ?Y = "drop (Suc j) (xss ! i) @ concat (drop (Suc i) xss)"
  have "concat xss = ?X @ (xss ! i ! j) # ?Y"
    using assms concat_nth [of i xss] id_take_nth_drop [of j "xss ! i"] by simp
  moreover have "concat (xss[i := (xss ! i)[j := x]]) = ?X @ x # ?Y"
    using assms by (simp add: concat_update upd_conv_take_nth_drop)
  ultimately show ?thesis by blast
qed

lemma concat_extend:
  assumes "i < length xss"
  shows "\<exists>X Y. concat xss = X @ Y \<and> concat (xss[i := xss ! i @ [x]]) = X @ x # Y"
proof -
  let ?X = "concat (take i xss) @ xss ! i"
  let ?Y = "concat (drop (Suc i) xss)"
  have "concat xss = ?X @ ?Y"
    using assms concat_nth [of i xss] by simp
  moreover have "concat (xss[i := xss ! i @ [x]]) = ?X @ x # ?Y"
    using assms by (simp add: concat_update)
  ultimately show ?thesis by blast
qed

lemma map_concat_update_same:
  assumes "\<And>y. f (g y) = f y"
  shows "map f (concat (xss[i := (xss ! i)[j := g (xss ! i ! j)]])) = map f (concat xss)"
proof (cases "i < length xss \<and> j < length (xss ! i)")
  case True
  then obtain X Y where "concat xss = X @ (xss ! i ! j) # Y"
      and "concat (xss[i := (xss ! i)[j := g (xss ! i ! j)]]) = X @ g (xss ! i ! j) # Y"
    using concat_replace [of i xss j "g (xss ! i ! j)"] by blast
  then show ?thesis by (simp add: assms)
next
  case False
  then have "xss[i := (xss ! i)[j := g (xss ! i ! j)]] = xss"
    by (cases "i < length xss") (simp_all add: list_update_same_conv list_update_beyond)
  then show ?thesis by simp
qed

text \<open>A place that holds a key node.\<close>

definition valid :: "cmdHashContainer \<Rightarrow> nat \<times> nat \<Rightarrow> bool" where
  "valid c p \<longleftrightarrow> fst p < length (bucket c) \<and> snd p < length (bucket c ! fst p)"

lemma load_store [simp]: "valid c p \<Longrightarrow> load_key (store_key c p k) p = k"
  by (simp add: valid_def load_key_def store_key_def)

lemma store_store [simp]: "store_key (store_key c p a) p b = store_key c p b"
  by (cases "fst p < length (bucket c)") (simp_all add: store_key_def list_update_beyond)

lemma valid_store [simp]: "valid (store_key c p k) q = valid c q"
  by (cases "fst p < length (bucket c)"; cases "fst q = fst p")
     (auto simp: valid_def store_key_def)

lemma store_key_fields [simp]:
  "ksize (store_key c p k) = ksize c"
  "msize (store_key c p k) = msize c"
  "keys (store_key c p k) = keys c"
  "members (store_key c p k) = members c"
  "str_len (store_key c p k) = str_len c"
  "length (bucket (store_key c p k)) = length (bucket c)"
  by (simp_all add: store_key_def)

lemma store_key_replace:
  "valid c p \<Longrightarrow>
   \<exists>X Y. concat (bucket c) = X @ load_key c p # Y
        \<and> concat (bucket (store_key c p k)) = X @ k # Y"
  using concat_replace [of "fst p" "bucket c" "snd p" k]
  by (simp add: valid_def load_key_def store_key_def)


text \<open>Every entry of a bucket array lies in the bucket its name hashes to.\<close>

definition placed_in :: "nat \<Rightarrow> ('a \<Rightarrow> string) \<Rightarrow> 'a list list \<Rightarrow> bool" where
  "placed_in n nm xss \<longleftrightarrow> (\<forall>i < length xss. \<forall>x \<in> set (xss ! i). GET_BUCKET (nm x) n = i)"

lemma placed_in_replicate [simp]: "placed_in n nm (replicate l [])"
  by (simp add: placed_in_def)

lemma placed_in_Nil [simp]: "placed_in n nm []"
  by (simp add: placed_in_def)

lemma placed_in_lookup:
  assumes "placed_in n nm xss" and "length xss = n" and "0 < n"
  shows "s \<in> nm ` set (concat xss) \<longleftrightarrow> s \<in> nm ` set (xss ! GET_BUCKET s n)"
proof
  assume "s \<in> nm ` set (concat xss)"
  then obtain x xs where x: "x \<in> set xs" "xs \<in> set xss" "nm x = s"
    by auto
  then obtain i where i: "i < length xss" "xss ! i = xs"
    by (auto simp: in_set_conv_nth)
  with assms x have "GET_BUCKET s n = i"
    by (auto simp: placed_in_def)
  with x i show "s \<in> nm ` set (xss ! GET_BUCKET s n)"
    by auto
next
  assume "s \<in> nm ` set (xss ! GET_BUCKET s n)"
  then obtain x where x: "x \<in> set (xss ! GET_BUCKET s n)" "nm x = s"
    by auto
  have "GET_BUCKET s n < length xss"
    using assms by simp
  then have "xss ! GET_BUCKET s n \<in> set xss"
    by (rule nth_mem)
  with x have "x \<in> set (concat xss)"
    by auto
  with x show "s \<in> nm ` set (concat xss)"
    by auto
qed

lemma placed_in_extend:
  assumes "placed_in n nm xss" and "GET_BUCKET (nm x) n = i"
  shows "placed_in n nm (xss[i := xss ! i @ [x]])"
  unfolding placed_in_def
proof (intro allI impI ballI)
  fix i' y
  assume i': "i' < length (xss[i := xss ! i @ [x]])"
    and y: "y \<in> set (xss[i := xss ! i @ [x]] ! i')"
  show "GET_BUCKET (nm y) n = i'"
  proof (cases "i' = i")
    case True
    with i' y have "y \<in> set (xss ! i) \<or> y = x"
      by auto
    with True i' assms show ?thesis
      by (auto simp: placed_in_def)
  next
    case False
    with i' y assms show ?thesis
      by (auto simp: placed_in_def)
  qed
qed

lemma placed_in_replace:
  assumes "placed_in n nm xss" and "i < length xss" and "j < length (xss ! i)"
    and "nm x = nm (xss ! i ! j)"
  shows "placed_in n nm (xss[i := (xss ! i)[j := x]])"
  unfolding placed_in_def
proof (intro allI impI ballI)
  fix i' y
  assume i': "i' < length (xss[i := (xss ! i)[j := x]])"
    and y: "y \<in> set (xss[i := (xss ! i)[j := x]] ! i')"
  have here: "GET_BUCKET (nm (xss ! i ! j)) n = i"
    using assms(1-3) by (auto simp: placed_in_def)
  show "GET_BUCKET (nm y) n = i'"
  proof (cases "i' = i")
    case True
    with i' y have "y \<in> set ((xss ! i)[j := x])"
      by simp
    then have "y \<in> set (xss ! i) \<or> y = x"
      using set_update_subset_insert [of "xss ! i" j x] by auto
    with True i' assms here show ?thesis
      by (auto simp: placed_in_def)
  next
    case False
    with i' y assms show ?thesis
      by (auto simp: placed_in_def)
  qed
qed

text \<open>What the two scans find, in chains of entries stored whole.\<close>

lemma strncmp_whole:
  assumes "NUL \<notin> set a" and "NUL \<notin> set b" and "length a = length b"
  shows "strncmp a b (length b) = 0 \<longleftrightarrow> a = b"
proof -
  have "cstr a = a" "cstr b = b"
    using assms by (auto simp: cstr_def takeWhile_eq_all_conv)
  with assms show ?thesis
    by (simp add: strncmp_0_iff)
qed

definition member_inv :: "cmdMemberList \<Rightarrow> bool" where
  "member_inv m \<longleftrightarrow> mlen m = length (member m) \<and> NUL \<notin> set (member m)"

lemma scan_members_None:
  assumes "\<forall>x \<in> set chain. member_inv x" and "NUL \<notin> set m"
  shows "scan_members chain m = None \<longleftrightarrow> m \<notin> member ` set chain"
  using assms
proof (induction chain)
  case Nil
  show ?case by simp
next
  case (Cons x chain)
  have "length m = mlen x \<and> strncmp m (member x) (length m) = 0 \<longleftrightarrow> member x = m"
    using Cons.prems strncmp_whole [of m "member x"]
    by (auto simp: member_inv_def)
  with Cons show ?case by auto
qed

lemma scan_members_Some:
  assumes "\<forall>x \<in> set chain. member_inv x" and "NUL \<notin> set m"
    and "scan_members chain m = Some j"
  shows "j < length chain \<and> member (chain ! j) = m"
  using assms
proof (induction chain arbitrary: j)
  case Nil
  then show ?case by simp
next
  case (Cons x chain)
  have eq: "length m = mlen x \<and> strncmp m (member x) (length m) = 0 \<longleftrightarrow> member x = m"
    using Cons.prems strncmp_whole [of m "member x"]
    by (auto simp: member_inv_def)
  show ?case
  proof (cases "member x = m")
    case True
    with eq Cons.prems show ?thesis by auto
  next
    case False
    with eq have "\<not> (length m = mlen x \<and> strncmp m (member x) (length m) = 0)"
      by blast
    then have "scan_members (x # chain) m = map_option Suc (scan_members chain m)"
      by (metis scan_members.simps(2))
    with Cons.prems(3) have "map_option Suc (scan_members chain m) = Some j"
      by (simp only:)
    then obtain j' where "scan_members chain m = Some j'" "j = Suc j'"
      by auto
    with Cons show ?thesis by auto
  qed
qed


text \<open>
  A key node as the engine keeps it: key and members stored whole and free of NUL, the
  member table absent or of the configured size, every member in the bucket of its
  hash and there only once, and \<open>count\<close> the number of members.
\<close>

definition key_inv :: "nat \<Rightarrow> cmdKeyList \<Rightarrow> bool" where
  "key_inv n k \<longleftrightarrow>
     klen k = length (key k) \<and> NUL \<notin> set (key k)
     \<and> (mbucket k = [] \<or> length (mbucket k) = n)
     \<and> (\<forall>m \<in> set (concat (mbucket k)). member_inv m)
     \<and> count k = of_nat (length (concat (mbucket k)))
     \<and> placed_in n member (mbucket k)
     \<and> distinct (map member (concat (mbucket k)))"

definition member_names :: "cmdKeyList \<Rightarrow> string set" where
  "member_names k = member ` set (concat (mbucket k))"

lemma table_of_props:
  assumes "key_inv n k" and "msize c = n"
  shows "length (table_of c k) = n" and "concat (table_of c k) = concat (mbucket k)"
    and "placed_in n member (table_of c k)"
  using assms by (auto simp: key_inv_def table_of_def)

lemma member_hits_incr [simp]: "member (hits_incr x) = member x" "mlen (hits_incr x) = mlen x"
  by (simp_all add: hits_incr_def)

lemma member_inv_hits [simp]: "member_inv (hits_incr x) = member_inv x"
  by (simp add: member_inv_def)

lemma member_insert_props:
  assumes inv: "key_inv n k" and n: "msize c = n" "0 < n" and m: "NUL \<notin> set m"
  shows "key_inv n (member_insert c k m)
     \<and> key (member_insert c k m) = key k
     \<and> mbucket (member_insert c k m) \<noteq> []
     \<and> member_names (member_insert c k m) = insert m (member_names k)
     \<and> length (concat (mbucket (member_insert c k m))) =
           length (concat (mbucket k)) + (if m \<in> member_names k then 0 else 1)
     \<and> member_counted c k m =
           (if m \<in> member_names k then c
            else c\<lparr>str_len := map_option (\<lambda>l. l + of_nat (length m)) (str_len c),
                   members := members c + 1\<rparr>)"
proof -
  let ?T = "table_of c k"
  let ?num = "GET_BUCKET m n"
  let ?chain = "?T ! ?num"
  note T = table_of_props [OF inv n(1)]
  have num: "?num < length ?T"
    using T n by simp
  have all: "\<forall>x \<in> set (concat ?T). member_inv x" "distinct (map member (concat ?T))"
      "count k = of_nat (length (concat ?T))"
    using inv T(2) by (auto simp: key_inv_def)
  have chain_sub: "set ?chain \<subseteq> set (concat ?T)"
    using nth_mem [OF num] by auto
  have chain_inv: "\<forall>x \<in> set ?chain. member_inv x"
    using all chain_sub by blast
  have look: "m \<in> member_names k \<longleftrightarrow> m \<in> member ` set ?chain"
    using placed_in_lookup [OF T(3) T(1) n(2), of m] T(2) by (simp add: member_names_def)
  have K: "klen k = length (key k)" "NUL \<notin> set (key k)"
    using inv by (auto simp: key_inv_def)
  show ?thesis
  proof (cases "scan_members ?chain m")
    case None
    then have new: "m \<notin> member_names k"
      using scan_members_None [OF chain_inv m] look by simp
    let ?item = "\<lparr>member = strndup m (length m), mlen = length m, score = 0\<rparr>"
    have item: "member ?item = m" "member_inv ?item"
      using m by (simp_all add: strndup_no_NUL member_inv_def)
    have ins: "member_insert c k m = k\<lparr>count := count k + 1, mbucket := ?T[?num := ?chain @ [?item]]\<rparr>"
      using None n by (simp add: member_insert_def Let_def)
    obtain X Y where XY: "concat ?T = X @ Y" "concat (?T[?num := ?chain @ [?item]]) = X @ ?item # Y"
      using concat_extend [OF num] by blast
    have p: "placed_in n member (?T[?num := ?chain @ [?item]])"
      using placed_in_extend [OF T(3), of ?item ?num] item by simp
    have 1: "key_inv n (member_insert c k m)"
      unfolding key_inv_def ins
      using K all XY p T(1) new item T(2) n(2)
      by (auto simp: member_names_def)
    have 2: "member_names (member_insert c k m) = insert m (member_names k)"
      unfolding ins member_names_def using XY T(2) item by auto
    have 3: "length (concat (mbucket (member_insert c k m))) = length (concat (mbucket k)) + 1"
      unfolding ins using XY T(2) by simp
    have 4: "mbucket (member_insert c k m) \<noteq> []"
      unfolding ins using T(1) n(2) by auto
    have 5: "member_counted c k m =
        c\<lparr>str_len := map_option (\<lambda>l. l + of_nat (length m)) (str_len c), members := members c + 1\<rparr>"
      using None n by (simp add: member_counted_def)
    have 6: "key (member_insert c k m) = key k"
      by (simp add: ins)
    from 1 2 3 4 5 6 new show ?thesis
      by (simp only: if_False) simp
  next
    case (Some j)
    then have j: "j < length ?chain" "member (?chain ! j) = m"
      using scan_members_Some [OF chain_inv m] by auto
    then have old: "m \<in> member_names k"
      using look by (metis image_eqI nth_mem)
    let ?item = "hits_incr (?chain ! j)"
    have ins: "member_insert c k m = k\<lparr>mbucket := ?T[?num := ?chain[j := ?item]]\<rparr>"
      using Some n by (simp add: member_insert_def Let_def)
    obtain X Y where XY: "concat ?T = X @ (?chain ! j) # Y"
        "concat (?T[?num := ?chain[j := ?item]]) = X @ ?item # Y"
      using concat_replace [OF num j(1)] by blast
    have p: "placed_in n member (?T[?num := ?chain[j := ?item]])"
      using placed_in_replace [OF T(3) num j(1), of ?item] by simp
    have 1: "key_inv n (member_insert c k m)"
      unfolding key_inv_def ins
      using K all XY p T(1) T(2) n(2)
      by auto
    have 2: "member_names (member_insert c k m) = insert m (member_names k)"
      unfolding ins member_names_def using XY T(2) j by auto
    have 3: "length (concat (mbucket (member_insert c k m))) = length (concat (mbucket k))"
      unfolding ins using XY T(2) by simp
    have 4: "mbucket (member_insert c k m) \<noteq> []"
      unfolding ins using T(1) n(2) by auto
    have 5: "member_counted c k m = c"
      using Some n by (simp add: member_counted_def)
    have 6: "key (member_insert c k m) = key k"
      by (simp add: ins)
    from 1 2 3 4 5 6 old show ?thesis
      by (simp only: if_True) simp
  qed
qed


lemma scan_keys_None:
  assumes "\<forall>x \<in> set chain. key_inv n x" and "NUL \<notin> set k"
  shows "scan_keys chain k = None \<longleftrightarrow> k \<notin> key ` set chain"
  using assms
proof (induction chain)
  case Nil
  show ?case by simp
next
  case (Cons x chain)
  have "klen x = length k \<and> strncmp (key x) k (length k) = 0 \<longleftrightarrow> key x = k"
    using Cons.prems strncmp_whole [of "key x" k]
    by (auto simp: key_inv_def)
  with Cons show ?case by auto
qed

lemma scan_keys_Some:
  assumes "\<forall>x \<in> set chain. key_inv n x" and "NUL \<notin> set k"
    and "scan_keys chain k = Some j"
  shows "j < length chain \<and> key (chain ! j) = k"
  using assms
proof (induction chain arbitrary: j)
  case Nil
  then show ?case by simp
next
  case (Cons x chain)
  have eq: "klen x = length k \<and> strncmp (key x) k (length k) = 0 \<longleftrightarrow> key x = k"
    using Cons.prems strncmp_whole [of "key x" k]
    by (auto simp: key_inv_def)
  show ?case
  proof (cases "key x = k")
    case True
    with eq Cons.prems show ?thesis by auto
  next
    case False
    with eq have "\<not> (klen x = length k \<and> strncmp (key x) k (length k) = 0)"
      by blast
    then have "scan_keys (x # chain) k = map_option Suc (scan_keys chain k)"
      by (metis scan_keys.simps(2))
    with Cons.prems(3) have "map_option Suc (scan_keys chain k) = Some j"
      by (simp only:)
    then obtain j' where "scan_keys chain k = Some j'" "j = Suc j'"
      by auto
    with Cons show ?thesis by auto
  qed
qed

text \<open>
  The (key, member) pairs a list of key nodes holds, in the order of the walk, and the
  counts a container is measured by.
\<close>

definition pairs_of :: "cmdKeyList list \<Rightarrow> (string \<times> string) list" where
  "pairs_of ks = concat (map (\<lambda>k. map (\<lambda>m. (key k, member m)) (concat (mbucket k))) ks)"

definition pair_list :: "cmdHashContainer \<Rightarrow> (string \<times> string) list" where
  "pair_list c = pairs_of (concat (bucket c))"

definition key_list :: "cmdHashContainer \<Rightarrow> string list" where
  "key_list c = map key (concat (bucket c))"

definition empties :: "cmdHashContainer \<Rightarrow> nat" where
  "empties c = length (filter (\<lambda>k. mbucket k = []) (concat (bucket c)))"

lemma pairs_of_append [simp]: "pairs_of (xs @ ys) = pairs_of xs @ pairs_of ys"
  by (simp add: pairs_of_def)

lemma pairs_of_Cons:
  "pairs_of (k # ks) = map (\<lambda>m. (key k, member m)) (concat (mbucket k)) @ pairs_of ks"
  by (simp add: pairs_of_def)

lemma pairs_of_Nil [simp]: "pairs_of [] = []"
  by (simp add: pairs_of_def)

lemma fst_pairs_of: "fst ` set (pairs_of ks) \<subseteq> key ` set ks"
  by (induction ks) (auto simp: pairs_of_Cons)

lemma distinct_pairs_of:
  assumes "distinct (map key ks)" and "\<forall>k \<in> set ks. distinct (map member (concat (mbucket k)))"
  shows "distinct (pairs_of ks)"
  using assms
proof (induction ks)
  case Nil
  show ?case by simp
next
  case (Cons k ks)
  have here: "distinct (map (\<lambda>m. (key k, member m)) (concat (mbucket k)))"
    using Cons.prems(2) by (simp add: distinct_map inj_on_def)
  have "key k \<notin> fst ` set (pairs_of ks)"
    using Cons.prems(1) fst_pairs_of [of ks] by auto
  then have "set (map (\<lambda>m. (key k, member m)) (concat (mbucket k))) \<inter> set (pairs_of ks) = {}"
    by force
  with here Cons show ?case
    by (simp add: pairs_of_Cons)
qed

text \<open>A container as the engine keeps it.\<close>

definition cont_inv :: "cmdHashContainer \<Rightarrow> bool" where
  "cont_inv c \<longleftrightarrow>
     length (bucket c) = ksize c \<and> 0 < ksize c \<and> 0 < msize c \<and> \<not> corrupt c
     \<and> (\<forall>k \<in> set (concat (bucket c)). key_inv (msize c) k)
     \<and> keys c = of_nat (length (concat (bucket c)))
     \<and> members c = of_nat (length (pair_list c))
     \<and> placed_in (ksize c) key (bucket c)
     \<and> distinct (key_list c)"

lemma cont_inv_empty: "0 < ks \<Longrightarrow> 0 < ms \<Longrightarrow> cont_inv (empty_container ks ms)"
  by (simp add: cont_inv_def empty_container_def pair_list_def key_list_def)

lemma distinct_pair_list: "cont_inv c \<Longrightarrow> distinct (pair_list c)"
  unfolding pair_list_def
  by (rule distinct_pairs_of) (auto simp: cont_inv_def key_list_def key_inv_def)


lemma set_nth_concat:
  assumes "i < length xss"
  shows "set (xss ! i) \<subseteq> set (concat xss)"
proof
  fix x
  assume "x \<in> set (xss ! i)"
  with nth_mem [OF assms] show "x \<in> set (concat xss)"
    by (auto intro!: bexI [of _ "xss ! i"])
qed

lemma load_key_mem:
  assumes "valid c p"
  shows "load_key c p \<in> set (concat (bucket c))"
proof -
  have "load_key c p \<in> set (bucket c ! fst p)"
    using assms by (simp add: valid_def load_key_def)
  with set_nth_concat [of "fst p" "bucket c"] assms show ?thesis
    by (auto simp: valid_def simp del: set_concat)
qed

lemma key_insert_props:
  assumes inv: "cont_inv c" and k: "NUL \<notin> set k"
  shows "cont_inv (key_insert c k)
     \<and> valid (key_insert c k) (key_place c k)
     \<and> key (load_key (key_insert c k) (key_place c k)) = k
     \<and> set (key_list (key_insert c k)) = insert k (set (key_list c))
     \<and> pair_list (key_insert c k) = pair_list c
     \<and> (empties c = 0 \<longrightarrow> empties (key_insert c k) =
           (if mbucket (load_key (key_insert c k) (key_place c k)) = [] then 1 else 0))
     \<and> ksize (key_insert c k) = ksize c \<and> msize (key_insert c k) = msize c"
proof -
  let ?num = "GET_BUCKET k (ksize c)"
  let ?chain = "bucket c ! ?num"
  have num: "?num < length (bucket c)"
    using inv by (simp add: cont_inv_def)
  have all: "\<forall>x \<in> set (concat (bucket c)). key_inv (msize c) x"
    using inv by (simp add: cont_inv_def)
  have chain_inv: "\<forall>x \<in> set ?chain. key_inv (msize c) x"
    using all set_nth_concat [OF num] by blast
  have look: "k \<in> set (key_list c) \<longleftrightarrow> k \<in> key ` set ?chain"
    using placed_in_lookup [of "ksize c" key "bucket c" k] inv
    by (simp add: cont_inv_def key_list_def)
  show ?thesis
  proof (cases "scan_keys ?chain k")
    case None
    then have new: "k \<notin> set (key_list c)"
      using scan_keys_None [OF chain_inv k] look by simp
    let ?node = "\<lparr>key = strndup k (length k), klen = length k, count = 0, mbucket = []\<rparr>"
    have node: "key ?node = k" "key_inv (msize c) ?node" "mbucket ?node = []"
      using k by (simp_all add: strndup_no_NUL key_inv_def)
    have ins: "key_insert c k = c\<lparr>keys := keys c + 1, bucket := (bucket c)[?num := ?chain @ [?node]]\<rparr>"
      using None by (simp add: key_insert_def Let_def)
    have place: "key_place c k = (?num, length ?chain)"
      using None by (simp add: key_place_def Let_def)
    obtain X Y where XY: "concat (bucket c) = X @ Y"
        "concat ((bucket c)[?num := ?chain @ [?node]]) = X @ ?node # Y"
      using concat_extend [OF num] by blast
    have p: "placed_in (ksize c) key ((bucket c)[?num := ?chain @ [?node]])"
      using placed_in_extend [of "ksize c" key "bucket c" ?node ?num] inv node
      by (simp add: cont_inv_def)
    have 1: "cont_inv (key_insert c k)"
      unfolding cont_inv_def ins
      using inv XY p new node
      by (auto simp: cont_inv_def pair_list_def key_list_def pairs_of_Cons)
    have 2: "valid (key_insert c k) (key_place c k)"
      unfolding ins place using num by (simp add: valid_def)
    have 3: "load_key (key_insert c k) (key_place c k) = ?node"
      unfolding ins place using num by (simp add: load_key_def)
    have 4: "set (key_list (key_insert c k)) = insert k (set (key_list c))"
      unfolding ins key_list_def using XY node by auto
    have 5: "pair_list (key_insert c k) = pair_list c"
      unfolding ins pair_list_def using XY by (simp add: pairs_of_Cons)
    have 6: "empties (key_insert c k) = empties c + 1"
      unfolding ins empties_def using XY by simp
    from 1 2 3 4 5 6 show ?thesis
      by (simp add: ins) (simp add: strndup_no_NUL k)
  next
    case (Some i)
    then have i: "i < length ?chain" "key (?chain ! i) = k"
      using scan_keys_Some [OF chain_inv k] by auto
    then have old: "k \<in> set (key_list c)"
      using look by (metis image_eqI nth_mem)
    have ins: "key_insert c k = c"
      using Some by (simp add: key_insert_def Let_def)
    have place: "key_place c k = (?num, i)"
      using Some by (simp add: key_place_def Let_def)
    have 2: "valid c (key_place c k)"
      unfolding place using num i by (simp add: valid_def)
    have 3: "key (load_key c (key_place c k)) = k"
      unfolding place using i by (simp add: load_key_def)
    have 6: "mbucket (load_key c (key_place c k)) \<noteq> []" if "empties c = 0"
      using that load_key_mem [OF 2] by (auto simp: empties_def filter_empty_conv)
    from inv 2 3 6 old show ?thesis
      unfolding ins by auto
  qed
qed

lemma member_counted_fields [simp]:
  "bucket (member_counted c k m) = bucket c"
  "ksize (member_counted c k m) = ksize c"
  "msize (member_counted c k m) = msize c"
  "keys (member_counted c k m) = keys c"
  by (simp_all add: member_counted_def split: option.splits)

lemma member_step_props:
  assumes inv: "cont_inv c" and v: "valid c p" and m: "NUL \<notin> set m"
  shows "cont_inv (member_step c p m)
     \<and> valid (member_step c p m) p
     \<and> key (load_key (member_step c p m) p) = key (load_key c p)
     \<and> key_list (member_step c p m) = key_list c
     \<and> set (pair_list (member_step c p m)) = insert (key (load_key c p), m) (set (pair_list c))
     \<and> empties (member_step c p m) = empties c - (if mbucket (load_key c p) = [] then 1 else 0)
     \<and> mbucket (load_key (member_step c p m) p) \<noteq> []
     \<and> ksize (member_step c p m) = ksize c \<and> msize (member_step c p m) = msize c"
proof -
  let ?k = "load_key c p"
  let ?k' = "member_insert c ?k m"
  let ?c1 = "member_counted c ?k m"
  have kin: "?k \<in> set (concat (bucket c))"
    using v by (rule load_key_mem)
  have kinv: "key_inv (msize c) ?k"
    using inv kin unfolding cont_inv_def by blast
  have ms: "0 < msize c"
    using inv by (simp add: cont_inv_def)
  note mi = member_insert_props [OF kinv refl ms m]
  have v1: "valid ?c1 p"
    using v by (simp add: valid_def)
  have l1: "load_key ?c1 p = ?k"
    by (simp add: load_key_def)
  obtain X Y where XY: "concat (bucket c) = X @ ?k # Y"
      "concat (bucket (store_key ?c1 p ?k')) = X @ ?k' # Y"
    using store_key_replace [OF v1, of ?k'] l1 by auto
  have step: "member_step c p m = store_key ?c1 p ?k'"
    by (simp add: member_step_def)
  have pi: "placed_in (ksize c) key (bucket (store_key ?c1 p ?k'))"
    using placed_in_replace [of "ksize c" key "bucket c" "fst p" "snd p" ?k'] inv v mi
    by (simp add: cont_inv_def store_key_def valid_def load_key_def)
  have len: "length (pair_list (store_key ?c1 p ?k')) =
      length (pair_list c) + (if m \<in> member_names ?k then 0 else 1)"
    unfolding pair_list_def XY using mi by (simp add: pairs_of_Cons)
  have mem: "members (store_key ?c1 p ?k') = of_nat (length (pair_list (store_key ?c1 p ?k')))"
    unfolding len using mi inv by (auto simp: cont_inv_def)
  have cor: "\<not> corrupt (store_key ?c1 p ?k')"
    using inv by (simp add: cont_inv_def)
  have 1: "cont_inv (store_key ?c1 p ?k')"
    unfolding cont_inv_def
    using inv XY pi mem mi cor v
    by (auto simp: cont_inv_def key_list_def valid_def)
  have 2: "valid (store_key ?c1 p ?k') p"
    using v1 by simp
  have 3: "load_key (store_key ?c1 p ?k') p = ?k'"
    using v1 by simp
  have 4: "key_list (store_key ?c1 p ?k') = key_list c"
    unfolding key_list_def XY using mi by simp
  have 5: "set (pair_list (store_key ?c1 p ?k')) = insert (key ?k, m) (set (pair_list c))"
  proof -
    have names: "member_names ?k' = insert m (member_names ?k)"
      using mi by blast
    have "(\<lambda>x. (key ?k, member x)) ` set (concat (mbucket ?k')) =
          Pair (key ?k) ` member_names ?k'"
      unfolding member_names_def image_image ..
    also have "\<dots> = insert (key ?k, m) (Pair (key ?k) ` member_names ?k)"
      unfolding names by simp
    also have "\<dots> = insert (key ?k, m) ((\<lambda>x. (key ?k, member x)) ` set (concat (mbucket ?k)))"
      unfolding member_names_def image_image ..
    finally have "(\<lambda>x. (key ?k, member x)) ` set (concat (mbucket ?k')) =
          insert (key ?k, m) ((\<lambda>x. (key ?k, member x)) ` set (concat (mbucket ?k)))" .
    then show ?thesis
      unfolding pair_list_def XY using mi by (auto simp: pairs_of_Cons)
  qed
  have 6: "empties (store_key ?c1 p ?k') = empties c - (if mbucket ?k = [] then 1 else 0)"
    unfolding empties_def XY using mi by simp
  from 1 2 3 4 5 6 mi show ?thesis
    unfolding step by simp
qed

lemma add_score_props:
  assumes "key_inv n k"
  shows "key_inv n (add_score L k q d)
     \<and> key (add_score L k q d) = key k
     \<and> (mbucket (add_score L k q d) = [] \<longleftrightarrow> mbucket k = [])
     \<and> map member (concat (mbucket (add_score L k q d))) = map member (concat (mbucket k))"
proof (cases "fst q < length (mbucket k) \<and> snd q < length (mbucket k ! fst q)")
  case True
  let ?old = "mbucket k ! fst q ! snd q"
  let ?new = "?old\<lparr>score := dadd L (score ?old) d\<rparr>"
  obtain X Y where XY: "concat (mbucket k) = X @ ?old # Y"
      "concat ((mbucket k)[fst q := (mbucket k ! fst q)[snd q := ?new]]) = X @ ?new # Y"
    using concat_replace [of "fst q" "mbucket k" "snd q" ?new] True by blast
  have p: "placed_in n member ((mbucket k)[fst q := (mbucket k ! fst q)[snd q := ?new]])"
    using placed_in_replace [of n member "mbucket k" "fst q" "snd q" ?new] True assms
    by (simp add: key_inv_def)
  have "member_inv ?new = member_inv ?old"
    by (simp add: member_inv_def)
  with assms XY p show ?thesis
    by (auto simp: key_inv_def add_score_def)
next
  case False
  then have "(mbucket k)[fst q := (mbucket k ! fst q)[snd q :=
      (mbucket k ! fst q ! snd q)\<lparr>score := dadd L (score (mbucket k ! fst q ! snd q)) d\<rparr>]] = mbucket k"
    by (cases "fst q < length (mbucket k)") (simp_all add: list_update_same_conv list_update_beyond)
  then have "add_score L k q d = k"
    by (simp add: add_score_def)
  with assms show ?thesis by simp
qed

text \<open>A score changed in the key node at a place.\<close>

definition rescore ::
    "libc \<Rightarrow> cmdHashContainer \<Rightarrow> nat \<times> nat \<Rightarrow> nat \<times> nat \<Rightarrow> 64 word \<Rightarrow> cmdHashContainer" where
  "rescore L c p q d = store_key c p (add_score L (load_key c p) q d)"

lemma rescore_props:
  assumes inv: "cont_inv c" and v: "valid c p"
  shows "cont_inv (rescore L c p q d)
     \<and> key_list (rescore L c p q d) = key_list c
     \<and> pair_list (rescore L c p q d) = pair_list c
     \<and> empties (rescore L c p q d) = empties c
     \<and> ksize (rescore L c p q d) = ksize c \<and> msize (rescore L c p q d) = msize c"
proof -
  let ?k = "load_key c p"
  let ?k' = "add_score L ?k q d"
  have kinv: "key_inv (msize c) ?k"
    using inv load_key_mem [OF v] unfolding cont_inv_def by blast
  note as = add_score_props [OF kinv, of L q d]
  obtain X Y where XY: "concat (bucket c) = X @ ?k # Y"
      "concat (bucket (store_key c p ?k')) = X @ ?k' # Y"
    using store_key_replace [OF v, of ?k'] by auto
  have pi: "placed_in (ksize c) key (bucket (store_key c p ?k'))"
    using placed_in_replace [of "ksize c" key "bucket c" "fst p" "snd p" ?k'] inv v as
    by (simp add: cont_inv_def store_key_def valid_def load_key_def)
  have pl: "pair_list (store_key c p ?k') = pair_list c"
  proof -
    have "map (\<lambda>m. (key ?k, member m)) (concat (mbucket ?k')) =
          map (Pair (key ?k)) (map member (concat (mbucket ?k')))"
      by simp
    also have "\<dots> = map (\<lambda>m. (key ?k, member m)) (concat (mbucket ?k))"
      using as by simp
    finally show ?thesis
      unfolding pair_list_def XY using as by (simp add: pairs_of_Cons)
  qed
  have kl: "key_list (store_key c p ?k') = key_list c"
    unfolding key_list_def XY using as by simp
  have em: "empties (store_key c p ?k') = empties c"
    unfolding empties_def XY using as by simp
  have "cont_inv (store_key c p ?k')"
    unfolding cont_inv_def pl kl
    using inv XY pi as
    by (auto simp: cont_inv_def)
  with pl kl em show ?thesis
    by (simp add: rescore_def)
qed

lemma zincrby_step_rescore:
  assumes "valid (key_insert c k) (key_place c k)"
  shows "zincrby_step L c k d m =
     rescore L (member_step (key_insert c k) (key_place c k) m) (key_place c k)
       (member_place (key_insert c k) (load_key (key_insert c k) (key_place c k)) m) d"
proof -
  let ?p = "key_place c k"
  let ?c1 = "key_insert c k"
  let ?k1 = "load_key ?c1 ?p"
  have v: "valid (member_counted ?c1 ?k1 m) ?p"
    using assms by (simp add: valid_def)
  show ?thesis
    using v by (simp add: zincrby_step_def rescore_def member_step_def Let_def)
qed

lemma zincrby_step_props:
  assumes inv: "cont_inv c" and full: "empties c = 0" and k: "NUL \<notin> set k" and m: "NUL \<notin> set m"
  shows "cont_inv (zincrby_step L c k d m)
     \<and> empties (zincrby_step L c k d m) = 0
     \<and> set (pair_list (zincrby_step L c k d m)) = insert (k, m) (set (pair_list c))
     \<and> set (key_list (zincrby_step L c k d m)) = insert k (set (key_list c))
     \<and> ksize (zincrby_step L c k d m) = ksize c \<and> msize (zincrby_step L c k d m) = msize c"
proof -
  let ?p = "key_place c k"
  let ?c1 = "key_insert c k"
  let ?c2 = "member_step ?c1 ?p m"
  note ki = key_insert_props [OF inv k]
  have inv1: "cont_inv ?c1" and v1: "valid ?c1 ?p"
    using ki by blast+
  note ms = member_step_props [OF inv1 v1 m]
  have inv2: "cont_inv ?c2" and v2: "valid ?c2 ?p"
    using ms by blast+
  note rs = rescore_props [OF inv2 v2]
  have e: "empties ?c2 = 0"
    using ki ms full by auto
  show ?thesis
    unfolding zincrby_step_rescore [OF v1]
    using ki ms rs e by auto
qed

lemma fold_member_step_props:
  assumes "cont_inv c" and "valid c p" and "\<forall>m \<in> set ms. NUL \<notin> set m"
  shows "cont_inv (fold (\<lambda>m c'. member_step c' p m) ms c)
     \<and> valid (fold (\<lambda>m c'. member_step c' p m) ms c) p
     \<and> key (load_key (fold (\<lambda>m c'. member_step c' p m) ms c) p) = key (load_key c p)
     \<and> key_list (fold (\<lambda>m c'. member_step c' p m) ms c) = key_list c
     \<and> set (pair_list (fold (\<lambda>m c'. member_step c' p m) ms c)) =
         set (pair_list c) \<union> Pair (key (load_key c p)) ` set ms
     \<and> empties (fold (\<lambda>m c'. member_step c' p m) ms c) =
         (if ms = [] then empties c
          else empties c - (if mbucket (load_key c p) = [] then 1 else 0))
     \<and> ksize (fold (\<lambda>m c'. member_step c' p m) ms c) = ksize c
     \<and> msize (fold (\<lambda>m c'. member_step c' p m) ms c) = msize c"
  using assms
proof (induction ms arbitrary: c)
  case Nil
  then show ?case by simp
next
  case (Cons m ms)
  let ?c1 = "member_step c p m"
  have m: "NUL \<notin> set m" and rest: "\<forall>m \<in> set ms. NUL \<notin> set m"
    using Cons.prems by auto
  note s = member_step_props [OF Cons.prems(1,2) m]
  have inv1: "cont_inv ?c1" and v1: "valid ?c1 p"
    using s by blast+
  note ih = Cons.IH [OF inv1 v1 rest]
  show ?case
    using s ih by (cases "ms = []") auto
qed

lemma sadd_step_props:
  assumes inv: "cont_inv c" and full: "empties c = 0" and k: "NUL \<notin> set k"
    and ms: "\<forall>m \<in> set ms. NUL \<notin> set m" "ms \<noteq> []"
  shows "cont_inv (sadd_step c k ms)
     \<and> empties (sadd_step c k ms) = 0
     \<and> set (pair_list (sadd_step c k ms)) = set (pair_list c) \<union> Pair k ` set ms
     \<and> set (key_list (sadd_step c k ms)) = insert k (set (key_list c))
     \<and> ksize (sadd_step c k ms) = ksize c \<and> msize (sadd_step c k ms) = msize c"
proof -
  let ?p = "key_place c k"
  let ?c1 = "key_insert c k"
  note ki = key_insert_props [OF inv k]
  have inv1: "cont_inv ?c1" and v1: "valid ?c1 ?p"
    using ki by blast+
  note f = fold_member_step_props [OF inv1 v1 ms(1)]
  show ?thesis
    unfolding sadd_step_def
    using ki f full ms(2) by auto
qed

section \<open>The engine after a stream\<close>

text \<open>
  What a stream asks the engine to hold: the (key, member) pairs of its ZINCRBY
  commands, the keys of its SADD commands, and the (key, member) pairs of those.
\<close>

definition zincrby_pairs :: "string list list \<Rightarrow> (string \<times> string) list" where
  "zincrby_pairs wss =
     map (\<lambda>ws. (ws ! 1, ws ! 3)) (filter (\<lambda>ws. get_type (command ws) = Some TYPE_ZINCRBY) wss)"

definition sadd_keys :: "string list list \<Rightarrow> string list" where
  "sadd_keys wss = map (\<lambda>ws. ws ! 1) (filter (\<lambda>ws. get_type (command ws) = Some TYPE_SADD) wss)"

definition sadd_pairs :: "string list list \<Rightarrow> (string \<times> string) list" where
  "sadd_pairs wss =
     concat (map (\<lambda>ws. map (Pair (ws ! 1)) (drop 2 ws))
       (filter (\<lambda>ws. get_type (command ws) = Some TYPE_SADD) wss))"

text \<open>A command that passes through, or whose arguments hold no NUL byte.\<close>

definition clean :: "string list \<Rightarrow> bool" where
  "clean ws \<longleftrightarrow> passthru ws \<or> list_all (\<lambda>w. NUL \<notin> set w) (tl ws)"

definition engine_inv :: "cmdHash \<Rightarrow> bool" where
  "engine_inv ht \<longleftrightarrow>
     cont_inv (z_cmds ht) \<and> empties (z_cmds ht) = 0
     \<and> cont_inv (s_cmds ht) \<and> empties (s_cmds ht) = 0"

lemma engine_inv_empty: "0 < ks \<Longrightarrow> 0 < ms \<Longrightarrow> engine_inv (empty_hash ks ms)"
  by (simp add: engine_inv_def empty_hash_def cont_inv_empty) (simp add: empties_def empty_container_def)

lemma engine_step_props:
  assumes inv: "engine_inv ht" and c: "clean ws"
  shows "engine_inv (engine_step L ht ws)
     \<and> set (pair_list (z_cmds (engine_step L ht ws))) =
         set (pair_list (z_cmds ht)) \<union> set (zincrby_pairs [ws])
     \<and> set (key_list (s_cmds (engine_step L ht ws))) =
         set (key_list (s_cmds ht)) \<union> set (sadd_keys [ws])
     \<and> set (pair_list (s_cmds (engine_step L ht ws))) =
         set (pair_list (s_cmds ht)) \<union> set (sadd_pairs [ws])
     \<and> ksize (s_cmds (engine_step L ht ws)) = ksize (s_cmds ht)
     \<and> msize (s_cmds (engine_step L ht ws)) = msize (s_cmds ht)
     \<and> ksize (z_cmds (engine_step L ht ws)) = ksize (z_cmds ht)
     \<and> msize (z_cmds (engine_step L ht ws)) = msize (z_cmds ht)"
proof -
  consider (u) "get_type (command ws) = Some TYPE_UNSUPPORTED"
    | (z) n k d m where "get_type (command ws) = Some TYPE_ZINCRBY" "ws = [n, k, d, m]"
    | (s) n k m ms where "get_type (command ws) = Some TYPE_SADD" "ws = n # k # m # ms"
    using get_type_command_cases [of ws] by blast
  then show ?thesis
  proof cases
    case u
    then have "engine_step L ht ws = ht"
      by (simp add: engine_step_def)
    with inv u show ?thesis
      by (simp add: zincrby_pairs_def sadd_keys_def sadd_pairs_def)
  next
    case z
    then have nul: "NUL \<notin> set k" "NUL \<notin> set m"
      using c by (auto simp: clean_def passthru_def)
    have step: "engine_step L ht ws = ht\<lparr>z_cmds := zincrby_step L (z_cmds ht) k (strtod L d) m\<rparr>"
      using z by (simp add: engine_step_def)
    note zs = zincrby_step_props [OF _ _ nul, of "z_cmds ht" L "strtod L d"]
    from inv zs z show ?thesis
      unfolding step
      by (simp add: engine_inv_def zincrby_pairs_def sadd_keys_def sadd_pairs_def)
  next
    case s
    then have nul: "NUL \<notin> set k" "\<forall>x \<in> set (m # ms). NUL \<notin> set x" "m # ms \<noteq> []"
      using c by (auto simp: clean_def passthru_def list_all_iff)
    have step: "engine_step L ht ws = ht\<lparr>s_cmds := sadd_step (s_cmds ht) k (m # ms)\<rparr>"
      using s by (simp add: engine_step_def)
    note ss = sadd_step_props [OF _ _ nul, of "s_cmds ht"]
    from inv ss s show ?thesis
      unfolding step
      by (simp add: engine_inv_def zincrby_pairs_def sadd_keys_def sadd_pairs_def)
  qed
qed

lemma engine_after_Cons:
  "engine_after L ht (ws # wss) = engine_after L (engine_step L ht ws) wss"
  by (simp add: engine_after_def)

lemma set_map_filter_Cons:
  "set (map f (filter P (x # xs))) = set (map f (filter P [x])) \<union> set (map f (filter P xs))"
  by simp

lemma set_concat_map_filter_Cons:
  "set (concat (map f (filter P (x # xs)))) =
     set (concat (map f (filter P [x]))) \<union> set (concat (map f (filter P xs)))"
  by simp

lemma zincrby_pairs_Cons:
  "set (zincrby_pairs (ws # wss)) = set (zincrby_pairs [ws]) \<union> set (zincrby_pairs wss)"
  unfolding zincrby_pairs_def by (rule set_map_filter_Cons)

lemma sadd_keys_Cons:
  "set (sadd_keys (ws # wss)) = set (sadd_keys [ws]) \<union> set (sadd_keys wss)"
  unfolding sadd_keys_def by (rule set_map_filter_Cons)

lemma sadd_pairs_Cons:
  "set (sadd_pairs (ws # wss)) = set (sadd_pairs [ws]) \<union> set (sadd_pairs wss)"
  unfolding sadd_pairs_def by (rule set_concat_map_filter_Cons)

lemma engine_after_props:
  assumes "engine_inv ht" and "list_all clean wss"
  shows "engine_inv (engine_after L ht wss)
     \<and> set (pair_list (z_cmds (engine_after L ht wss))) =
         set (pair_list (z_cmds ht)) \<union> set (zincrby_pairs wss)
     \<and> set (key_list (s_cmds (engine_after L ht wss))) =
         set (key_list (s_cmds ht)) \<union> set (sadd_keys wss)
     \<and> set (pair_list (s_cmds (engine_after L ht wss))) =
         set (pair_list (s_cmds ht)) \<union> set (sadd_pairs wss)
     \<and> ksize (s_cmds (engine_after L ht wss)) = ksize (s_cmds ht)
     \<and> msize (s_cmds (engine_after L ht wss)) = msize (s_cmds ht)
     \<and> ksize (z_cmds (engine_after L ht wss)) = ksize (z_cmds ht)
     \<and> msize (z_cmds (engine_after L ht wss)) = msize (z_cmds ht)"
  using assms
proof (induction wss arbitrary: ht)
  case Nil
  then show ?case
    by (simp add: engine_after_def zincrby_pairs_def sadd_keys_def sadd_pairs_def)
next
  case (Cons ws wss)
  have c: "clean ws" and rest: "list_all clean wss"
    using Cons.prems by auto
  note s = engine_step_props [OF Cons.prems(1) c, of L]
  have inv1: "engine_inv (engine_step L ht ws)"
    using s by blast
  note ih = Cons.IH [OF inv1 rest]
  show ?case
    unfolding engine_after_Cons
    using s ih zincrby_pairs_Cons [of ws wss] sadd_keys_Cons [of ws wss] sadd_pairs_Cons [of ws wss]
    by (simp add: Un_assoc)
qed

lemma members_le_pairs:
  assumes "k \<in> set ks"
  shows "length (concat (mbucket k)) \<le> length (pairs_of ks)"
proof -
  obtain X Y where "ks = X @ k # Y"
    using assms by (auto dest: split_list)
  then show ?thesis
    by (simp add: pairs_of_Cons)
qed

lemma container_ok_inv:
  assumes inv: "cont_inv c" and full: "empties c = 0" and small: "length (pair_list c) < 2 ^ 32"
  shows "container_ok c"
proof -
  have "key_ok c k" if k: "k \<in> set (concat (bucket c))" for k
  proof -
    have kinv: "key_inv (msize c) k"
      using inv k unfolding cont_inv_def by blast
    have ne: "mbucket k \<noteq> []"
      using full k by (auto simp: empties_def filter_empty_conv)
    have "length (concat (mbucket k)) \<le> length (pair_list c)"
      unfolding pair_list_def using k by (rule members_le_pairs)
    with small have "length (concat (mbucket k)) < 2 ^ 32"
      by simp
    then have "unat (of_nat (length (concat (mbucket k))) :: 32 word) = length (concat (mbucket k))"
      by (simp add: unat_of_nat)
    with kinv ne show ?thesis
      by (auto simp: key_ok_def key_inv_def readable_key_def readable_member_def member_inv_def
          list_all_iff)
  qed
  with inv show ?thesis
    by (auto simp: container_ok_def cont_inv_def list_all_iff)
qed

text \<open>The number of commands of a stream plus the number of their strings.\<close>

definition stream_size :: "string list list \<Rightarrow> nat" where
  "stream_size wss = sum_list (map (\<lambda>ws. Suc (length ws)) wss)"

lemma length_le_stream_size: "length wss \<le> stream_size wss"
  by (induction wss) (simp_all add: stream_size_def)

lemma sadd_pairs_le_stream_size: "length (sadd_pairs wss) \<le> stream_size wss"
  by (induction wss) (auto simp: stream_size_def sadd_pairs_def)

lemma zincrby_pairs_le: "length (zincrby_pairs wss) \<le> length wss"
  by (simp add: zincrby_pairs_def)

lemma sadd_keys_le: "length (sadd_keys wss) \<le> length wss"
  by (simp add: sadd_keys_def)

lemma pair_list_empty [simp]: "pair_list (empty_container ks ms) = []"
  by (simp add: pair_list_def empty_container_def)

lemma key_list_empty [simp]: "key_list (empty_container ks ms) = []"
  by (simp add: key_list_def empty_container_def)

text \<open>The engine after a stream fed to the empty engine.\<close>

lemma engine_after_empty:
  assumes "0 < ks" and "0 < ms" and "list_all clean wss"
  shows "engine_inv (engine_after L (empty_hash ks ms) wss)"
    and "set (pair_list (z_cmds (engine_after L (empty_hash ks ms) wss))) = set (zincrby_pairs wss)"
    and "set (key_list (s_cmds (engine_after L (empty_hash ks ms) wss))) = set (sadd_keys wss)"
    and "set (pair_list (s_cmds (engine_after L (empty_hash ks ms) wss))) = set (sadd_pairs wss)"
  using engine_after_props [OF engine_inv_empty [OF assms(1,2)] assms(3), of L]
  by (simp_all add: empty_hash_def)

lemma engine_after_counts:
  assumes "0 < ks" and "0 < ms" and "list_all clean wss"
  shows "length (pair_list (z_cmds (engine_after L (empty_hash ks ms) wss))) =
           card (set (zincrby_pairs wss))"
    and "length (concat (bucket (s_cmds (engine_after L (empty_hash ks ms) wss)))) =
           card (set (sadd_keys wss))"
    and "length (pair_list (s_cmds (engine_after L (empty_hash ks ms) wss))) =
           card (set (sadd_pairs wss))"
proof -
  let ?E = "engine_after L (empty_hash ks ms) wss"
  note e = engine_after_empty [OF assms, of L]
  have inv: "cont_inv (z_cmds ?E)" "cont_inv (s_cmds ?E)"
    using e(1) by (simp_all add: engine_inv_def)
  show "length (pair_list (z_cmds ?E)) = card (set (zincrby_pairs wss))"
    using distinct_card [OF distinct_pair_list [OF inv(1)]] e(2) by simp
  show "length (pair_list (s_cmds ?E)) = card (set (sadd_pairs wss))"
    using distinct_card [OF distinct_pair_list [OF inv(2)]] e(4) by simp
  have "distinct (key_list (s_cmds ?E))"
    using inv(2) by (simp add: cont_inv_def)
  from distinct_card [OF this] e(3)
  show "length (concat (bucket (s_cmds ?E))) = card (set (sadd_keys wss))"
    by (simp add: key_list_def)
qed

lemma engine_after_ok:
  assumes "0 < ks" and "0 < ms" and "list_all clean wss" and "stream_size wss < 2 ^ 32"
  shows "container_ok (z_cmds (engine_after L (empty_hash ks ms) wss))"
    and "container_ok (s_cmds (engine_after L (empty_hash ks ms) wss))"
proof -
  let ?E = "engine_after L (empty_hash ks ms) wss"
  note e = engine_after_empty [OF assms(1-3), of L]
  note n = engine_after_counts [OF assms(1-3), of L]
  have "card (set (zincrby_pairs wss)) \<le> stream_size wss"
    using card_length [of "zincrby_pairs wss"] zincrby_pairs_le [of wss]
      length_le_stream_size [of wss] by simp
  with n(1) assms(4) have z: "length (pair_list (z_cmds ?E)) < 2 ^ 32"
    by simp
  have "card (set (sadd_pairs wss)) \<le> stream_size wss"
    using card_length [of "sadd_pairs wss"] sadd_pairs_le_stream_size [of wss] by simp
  with n(3) assms(4) have s: "length (pair_list (s_cmds ?E)) < 2 ^ 32"
    by simp
  show "container_ok (z_cmds ?E)"
    using e(1) z by (intro container_ok_inv) (simp_all add: engine_inv_def)
  show "container_ok (s_cmds ?E)"
    using e(1) s by (intro container_ok_inv) (simp_all add: engine_inv_def)
qed

section \<open>The values the member nodes carry\<close>

text \<open>
  The entries of a container: the (key, member) pairs of the walk with the 64 bits of
  the union of each member node.
\<close>

definition vals_of :: "cmdKeyList \<Rightarrow> (string \<times> 64 word) list" where
  "vals_of k = map (\<lambda>m. (member m, score m)) (concat (mbucket k))"

definition entries_of :: "cmdKeyList list \<Rightarrow> ((string \<times> string) \<times> 64 word) list" where
  "entries_of ks = concat (map (\<lambda>k. map (\<lambda>(m, v). ((key k, m), v)) (vals_of k)) ks)"

definition entry_list :: "cmdHashContainer \<Rightarrow> ((string \<times> string) \<times> 64 word) list" where
  "entry_list c = entries_of (concat (bucket c))"

definition score_at :: "cmdHashContainer \<Rightarrow> string \<times> string \<Rightarrow> 64 word option" where
  "score_at c = map_of (entry_list c)"

text \<open>
  What \<open>__find_member\<close> leaves in the union of the node it returns: zero in a new node,
  and the old bits with the low half incremented in a node it has found.
\<close>

definition incr_low :: "64 word \<Rightarrow> 64 word" where
  "incr_low w = (w AND NOT (mask 32)) OR ucast ((ucast w :: 32 word) + 1)"

definition bump :: "64 word option \<Rightarrow> 64 word" where
  "bump v = (case v of None \<Rightarrow> 0 | Some w \<Rightarrow> incr_low w)"

lemma score_hits_incr: "score (hits_incr x) = incr_low (score x)"
  by (simp add: hits_incr_def incr_low_def hits_def)


lemma entries_of_append [simp]: "entries_of (xs @ ys) = entries_of xs @ entries_of ys"
  by (simp add: entries_of_def)

lemma entries_of_Cons:
  "entries_of (k # ks) = map (\<lambda>(m, v). ((key k, m), v)) (vals_of k) @ entries_of ks"
  by (simp add: entries_of_def)

lemma entries_of_Nil [simp]: "entries_of [] = []"
  by (simp add: entries_of_def)

lemma map_fst_entries_of: "map fst (entries_of ks) = pairs_of ks"
  by (induction ks) (simp_all add: entries_of_Cons pairs_of_Cons vals_of_def case_prod_unfold comp_def)

lemma map_fst_entry_list: "map fst (entry_list c) = pair_list c"
  by (simp add: entry_list_def pair_list_def map_fst_entries_of)

lemma distinct_entry_list: "cont_inv c \<Longrightarrow> distinct (map fst (entry_list c))"
  by (simp add: map_fst_entry_list distinct_pair_list)

lemma map_of_update_set:
  assumes "distinct (map fst xs)" and "distinct (map fst ys)"
    and "set ys = {e \<in> set xs. fst e \<noteq> p} \<union> {(p, v)}"
  shows "map_of ys = (map_of xs)(p := Some v)"
proof
  fix q
  show "map_of ys q = ((map_of xs)(p := Some v)) q"
  proof (cases "q = p")
    case True
    have "(p, v) \<in> set ys"
      using assms(3) by simp
    with assms(2) True show ?thesis
      by simp
  next
    case False
    show ?thesis
    proof (cases "map_of xs q")
      case None
      then have "q \<notin> fst ` set xs"
        by (simp add: map_of_eq_None_iff)
      with assms(3) False have "q \<notin> fst ` set ys"
        by force
      then have "map_of ys q = None"
        by (simp add: map_of_eq_None_iff)
      with None False show ?thesis
        by simp
    next
      case (Some w)
      then have "(q, w) \<in> set xs"
        by (rule map_of_SomeD)
      with assms(3) False have "(q, w) \<in> set ys"
        by simp
      with assms(2) have "map_of ys q = Some w"
        by simp
      with Some False show ?thesis
        by simp
    qed
  qed
qed

lemma vals_replace:
  assumes "distinct (map member (concat xss))" and "i < length xss" and "j < length (xss ! i)"
    and "member x = member (xss ! i ! j)"
  shows "set (map (\<lambda>y. (member y, score y)) (concat (xss[i := (xss ! i)[j := x]]))) =
         {e \<in> set (map (\<lambda>y. (member y, score y)) (concat xss)). fst e \<noteq> member x}
           \<union> {(member x, score x)}"
    and "map_of (map (\<lambda>y. (member y, score y)) (concat xss)) (member x) = Some (score (xss ! i ! j))"
proof -
  obtain X Y where XY: "concat xss = X @ (xss ! i ! j) # Y"
      "concat (xss[i := (xss ! i)[j := x]]) = X @ x # Y"
    using concat_replace [OF assms(2,3)] by blast
  have d: "member x \<notin> member ` set X" "member x \<notin> member ` set Y"
    using assms(1,4) unfolding XY by auto
  show "set (map (\<lambda>y. (member y, score y)) (concat (xss[i := (xss ! i)[j := x]]))) =
         {e \<in> set (map (\<lambda>y. (member y, score y)) (concat xss)). fst e \<noteq> member x}
           \<union> {(member x, score x)}"
    unfolding XY using d assms(4) by (auto simp: image_iff)
  have "(member x, score (xss ! i ! j)) \<in> set (map (\<lambda>y. (member y, score y)) (concat xss))"
    unfolding XY using assms(4) by simp
  moreover have "distinct (map fst (map (\<lambda>y. (member y, score y)) (concat xss)))"
    using assms(1) by (simp add: comp_def)
  ultimately show "map_of (map (\<lambda>y. (member y, score y)) (concat xss)) (member x) =
      Some (score (xss ! i ! j))"
    by simp
qed

lemma member_insert_vals:
  assumes inv: "key_inv n k" and n: "msize c = n" "0 < n" and m: "NUL \<notin> set m"
  shows "set (vals_of (member_insert c k m)) =
           {e \<in> set (vals_of k). fst e \<noteq> m} \<union> {(m, bump (map_of (vals_of k) m))}"
    and "fst (member_place c k m) < length (mbucket (member_insert c k m))"
    and "snd (member_place c k m) <
           length (mbucket (member_insert c k m) ! fst (member_place c k m))"
    and "member (mbucket (member_insert c k m) ! fst (member_place c k m)
           ! snd (member_place c k m)) = m"
    and "score (mbucket (member_insert c k m) ! fst (member_place c k m)
           ! snd (member_place c k m)) = bump (map_of (vals_of k) m)"
proof -
  let ?T = "table_of c k"
  let ?num = "GET_BUCKET m n"
  let ?chain = "?T ! ?num"
  note T = table_of_props [OF inv n(1)]
  have num: "?num < length ?T"
    using T n by simp
  have all: "\<forall>x \<in> set (concat ?T). member_inv x" "distinct (map member (concat ?T))"
    using inv T(2) by (auto simp: key_inv_def)
  have chain_sub: "set ?chain \<subseteq> set (concat ?T)"
    using nth_mem [OF num] by auto
  have chain_inv: "\<forall>x \<in> set ?chain. member_inv x"
    using all chain_sub by blast
  have look: "m \<in> member_names k \<longleftrightarrow> m \<in> member ` set ?chain"
    using placed_in_lookup [OF T(3) T(1) n(2), of m] T(2) by (simp add: member_names_def)
  have vals: "vals_of k = map (\<lambda>y. (member y, score y)) (concat ?T)"
    by (simp add: vals_of_def T(2))
  have "set (vals_of (member_insert c k m)) =
           {e \<in> set (vals_of k). fst e \<noteq> m} \<union> {(m, bump (map_of (vals_of k) m))}
      \<and> fst (member_place c k m) < length (mbucket (member_insert c k m))
      \<and> snd (member_place c k m) < length (mbucket (member_insert c k m) ! fst (member_place c k m))
      \<and> member (mbucket (member_insert c k m) ! fst (member_place c k m)
           ! snd (member_place c k m)) = m
      \<and> score (mbucket (member_insert c k m) ! fst (member_place c k m)
           ! snd (member_place c k m)) = bump (map_of (vals_of k) m)"
  proof (cases "scan_members ?chain m")
    case None
    then have new: "m \<notin> member_names k"
      using scan_members_None [OF chain_inv m] look by simp
    then have "map_of (vals_of k) m = None"
      by (simp add: map_of_eq_None_iff vals_of_def member_names_def image_image)
    then have none: "bump (map_of (vals_of k) m) = 0"
      by (simp add: bump_def)
    let ?item = "\<lparr>member = strndup m (length m), mlen = length m, score = 0\<rparr>"
    have item: "member ?item = m"
      using m by (simp add: strndup_no_NUL)
    have ins: "member_insert c k m = k\<lparr>count := count k + 1, mbucket := ?T[?num := ?chain @ [?item]]\<rparr>"
      using None n by (simp add: member_insert_def Let_def)
    have place: "member_place c k m = (?num, length ?chain)"
      using None n by (simp add: member_place_def Let_def)
    obtain X Y where XY: "concat ?T = X @ Y" "concat (?T[?num := ?chain @ [?item]]) = X @ ?item # Y"
      using concat_extend [OF num] by blast
    have 1: "set (vals_of (member_insert c k m)) =
           {e \<in> set (vals_of k). fst e \<noteq> m} \<union> {(m, bump (map_of (vals_of k) m))}"
      unfolding none unfolding vals ins vals_of_def using XY new T(2) item
      by (auto simp: member_names_def image_iff)
    from 1 num item show ?thesis
      unfolding place none unfolding ins by simp
  next
    case (Some j)
    then have j: "j < length ?chain" "member (?chain ! j) = m"
      using scan_members_Some [OF chain_inv m] by auto
    let ?item = "hits_incr (?chain ! j)"
    have item: "member ?item = member (?T ! ?num ! j)" "member ?item = m"
      using j by simp_all
    have ins: "member_insert c k m = k\<lparr>mbucket := ?T[?num := ?chain[j := ?item]]\<rparr>"
      using Some n by (simp add: member_insert_def Let_def)
    have place: "member_place c k m = (?num, j)"
      using Some n by (simp add: member_place_def Let_def)
    note r = vals_replace [OF all(2) num j(1) item(1)]
    have "map_of (vals_of k) m = Some (score (?chain ! j))"
      using r(2) unfolding vals item(2) .
    then have some: "bump (map_of (vals_of k) m) = incr_low (score (?chain ! j))"
      by (simp add: bump_def)
    have 1: "set (vals_of (member_insert c k m)) =
           {e \<in> set (vals_of k). fst e \<noteq> m} \<union> {(m, bump (map_of (vals_of k) m))}"
    proof -
      have v': "vals_of (member_insert c k m) =
          map (\<lambda>y. (member y, score y)) (concat (?T[?num := ?chain[j := ?item]]))"
        by (simp add: ins vals_of_def)
      show ?thesis
        unfolding some unfolding v' vals using r(1)
        by (simp only: item(2) score_hits_incr)
    qed
    from 1 num j item show ?thesis
      unfolding place some unfolding ins by (simp add: score_hits_incr)
  qed
  then show "set (vals_of (member_insert c k m)) =
           {e \<in> set (vals_of k). fst e \<noteq> m} \<union> {(m, bump (map_of (vals_of k) m))}"
    and "fst (member_place c k m) < length (mbucket (member_insert c k m))"
    and "snd (member_place c k m) <
           length (mbucket (member_insert c k m) ! fst (member_place c k m))"
    and "member (mbucket (member_insert c k m) ! fst (member_place c k m)
           ! snd (member_place c k m)) = m"
    and "score (mbucket (member_insert c k m) ! fst (member_place c k m)
           ! snd (member_place c k m)) = bump (map_of (vals_of k) m)"
    by blast+
qed

lemma add_score_vals:
  assumes "key_inv n k" and "fst q < length (mbucket k)" and "snd q < length (mbucket k ! fst q)"
  shows "set (vals_of (add_score L k q d)) =
           {e \<in> set (vals_of k). fst e \<noteq> member (mbucket k ! fst q ! snd q)}
             \<union> {(member (mbucket k ! fst q ! snd q), dadd L (score (mbucket k ! fst q ! snd q)) d)}"
proof -
  let ?old = "mbucket k ! fst q ! snd q"
  let ?new = "?old\<lparr>score := dadd L (score ?old) d\<rparr>"
  have d: "distinct (map member (concat (mbucket k)))"
    using assms(1) by (simp add: key_inv_def)
  have "member ?new = member ?old"
    by simp
  from vals_replace(1) [OF d assms(2,3) this] show ?thesis
    by (simp add: vals_of_def add_score_def)
qed

lemma keys_entries_of: "fst ` fst ` set (entries_of ks) \<subseteq> key ` set ks"
  by (induction ks) (auto simp: entries_of_Cons)

lemma map_of_keyed: "map_of (map (\<lambda>(m, v). ((k, m), v)) xs) (k, m) = map_of xs m"
  by (induction xs) auto

lemma entries_split:
  assumes "distinct (map key (X @ k # Y))" and "key k' = key k"
  shows "set (entries_of (X @ k' # Y)) =
           {e \<in> set (entries_of (X @ k # Y)). fst (fst e) \<noteq> key k}
             \<union> (\<lambda>(m, v). ((key k, m), v)) ` set (vals_of k')"
    and "map_of (entries_of (X @ k # Y)) (key k, m) = map_of (vals_of k) m"
proof -
  have "key k \<notin> key ` set X" "key k \<notin> key ` set Y"
    using assms(1) by auto
  then have X: "key k \<notin> fst ` fst ` set (entries_of X)"
    and Y: "key k \<notin> fst ` fst ` set (entries_of Y)"
    using keys_entries_of [of X] keys_entries_of [of Y] by blast+
  have X': "\<forall>e \<in> set (entries_of X). fst (fst e) \<noteq> key k"
    and Y': "\<forall>e \<in> set (entries_of Y). fst (fst e) \<noteq> key k"
    using X Y by (auto simp: image_iff)
  show "set (entries_of (X @ k' # Y)) =
           {e \<in> set (entries_of (X @ k # Y)). fst (fst e) \<noteq> key k}
             \<union> (\<lambda>(m, v). ((key k, m), v)) ` set (vals_of k')"
    using X' Y' assms(2) by (fastforce simp: entries_of_Cons)
  have nX: "(key k, m) \<notin> fst ` set (entries_of X)" and nY: "(key k, m) \<notin> fst ` set (entries_of Y)"
    using X' Y' by force+
  have "map_of (entries_of X) (key k, m) = None" "map_of (entries_of Y) (key k, m) = None"
    using nX nY by (simp_all add: map_of_eq_None_iff)
  then show "map_of (entries_of (X @ k # Y)) (key k, m) = map_of (vals_of k) m"
    by (simp add: entries_of_Cons map_add_def map_of_keyed split: option.splits)
qed

lemma store_key_entries:
  assumes inv: "cont_inv c" and v: "valid c p" and b: "bucket c' = bucket c"
    and k': "key k' = key (load_key c p)"
  shows "set (entry_list (store_key c' p k')) =
           {e \<in> set (entry_list c). fst (fst e) \<noteq> key (load_key c p)}
             \<union> (\<lambda>(m, v). ((key (load_key c p), m), v)) ` set (vals_of k')"
    and "score_at c (key (load_key c p), m) = map_of (vals_of (load_key c p)) m"
    and "set (entry_list c) =
           {e \<in> set (entry_list c). fst (fst e) \<noteq> key (load_key c p)}
             \<union> (\<lambda>(m, v). ((key (load_key c p), m), v)) ` set (vals_of (load_key c p))"
proof -
  let ?k = "load_key c p"
  have v': "valid c' p"
    using v b by (simp add: valid_def)
  have l': "load_key c' p = ?k"
    using b by (simp add: load_key_def)
  obtain X Y where XY: "concat (bucket c) = X @ ?k # Y"
      "concat (bucket (store_key c' p k')) = X @ k' # Y"
    using store_key_replace [OF v', of k'] l' b by auto
  have d: "distinct (map key (X @ ?k # Y))"
    using inv unfolding cont_inv_def key_list_def XY by simp
  note s = entries_split [OF d]
  show "set (entry_list (store_key c' p k')) =
           {e \<in> set (entry_list c). fst (fst e) \<noteq> key ?k}
             \<union> (\<lambda>(m, v). ((key ?k, m), v)) ` set (vals_of k')"
    unfolding entry_list_def XY by (rule s(1) [OF k'])
  show "score_at c (key ?k, m) = map_of (vals_of ?k) m"
    unfolding score_at_def entry_list_def XY by (rule s(2) [OF refl])
  show "set (entry_list c) =
           {e \<in> set (entry_list c). fst (fst e) \<noteq> key ?k}
             \<union> (\<lambda>(m, v). ((key ?k, m), v)) ` set (vals_of ?k)"
    unfolding entry_list_def XY by (rule s(1) [OF refl])
qed

lemma member_step_entries:
  assumes inv: "cont_inv c" and v: "valid c p" and m: "NUL \<notin> set m"
  shows "score_at (member_step c p m) =
           (score_at c)((key (load_key c p), m) := Some (bump (score_at c (key (load_key c p), m))))"
proof -
  let ?k = "load_key c p"
  let ?k' = "member_insert c ?k m"
  let ?c1 = "member_counted c ?k m"
  let ?new = "bump (score_at c (key ?k, m))"
  have kinv: "key_inv (msize c) ?k"
    using inv load_key_mem [OF v] unfolding cont_inv_def by blast
  have ms: "0 < msize c"
    using inv by (simp add: cont_inv_def)
  note mi = member_insert_props [OF kinv refl ms m]
  note mv = member_insert_vals [OF kinv refl ms m]
  have k': "key ?k' = key ?k"
    using mi by blast
  have b: "bucket ?c1 = bucket c"
    by simp
  note se = store_key_entries [OF inv v b k']
  have new: "bump (map_of (vals_of ?k) m) = ?new"
    unfolding se(2) ..
  have "set (entry_list (member_step c p m)) =
      {e \<in> set (entry_list c). fst (fst e) \<noteq> key ?k}
        \<union> (\<lambda>(m, v). ((key ?k, m), v)) ` ({e \<in> set (vals_of ?k). fst e \<noteq> m} \<union> {(m, ?new)})"
    unfolding member_step_def se(1) mv(1) new ..
  also have "\<dots> = {e \<in> set (entry_list c). fst e \<noteq> (key ?k, m)} \<union> {((key ?k, m), ?new)}"
    by (subst (2) se(3)) (auto simp: image_iff)
  finally have s: "set (entry_list (member_step c p m)) =
      {e \<in> set (entry_list c). fst e \<noteq> (key ?k, m)} \<union> {((key ?k, m), ?new)}" .
  have inv': "cont_inv (member_step c p m)"
    using member_step_props [OF inv v m] by blast
  show ?thesis
    unfolding score_at_def
    using map_of_update_set [OF distinct_entry_list [OF inv] distinct_entry_list [OF inv'] s]
    by (simp add: score_at_def)
qed

lemma key_insert_entries:
  assumes "cont_inv c"
  shows "score_at (key_insert c k) = score_at c"
proof (cases "scan_keys (bucket c ! GET_BUCKET k (ksize c)) k")
  case None
  let ?num = "GET_BUCKET k (ksize c)"
  let ?node = "\<lparr>key = strndup k (length k), klen = length k, count = 0, mbucket = []\<rparr>"
  have num: "?num < length (bucket c)"
    using assms by (simp add: cont_inv_def)
  obtain X Y where XY: "concat (bucket c) = X @ Y"
      "concat ((bucket c)[?num := bucket c ! ?num @ [?node]]) = X @ ?node # Y"
    using concat_extend [OF num] by blast
  have "entry_list (key_insert c k) = entry_list c"
    using None XY by (simp add: key_insert_def Let_def entry_list_def entries_of_Cons vals_of_def)
  then show ?thesis
    by (simp add: score_at_def)
next
  case (Some i)
  then show ?thesis
    by (simp add: key_insert_def Let_def)
qed

lemma rescore_entries:
  assumes inv: "cont_inv c" and v: "valid c p"
    and q: "fst q < length (mbucket (load_key c p))"
      "snd q < length (mbucket (load_key c p) ! fst q)"
      "member (mbucket (load_key c p) ! fst q ! snd q) = m"
  shows "score_at (rescore L c p q d) =
           (score_at c)((key (load_key c p), m) :=
              Some (dadd L (score (mbucket (load_key c p) ! fst q ! snd q)) d))"
proof -
  let ?k = "load_key c p"
  let ?k' = "add_score L ?k q d"
  let ?new = "dadd L (score (mbucket ?k ! fst q ! snd q)) d"
  have kinv: "key_inv (msize c) ?k"
    using inv load_key_mem [OF v] unfolding cont_inv_def by blast
  have k': "key ?k' = key ?k"
    using add_score_props [OF kinv, of L q d] by blast
  note av = add_score_vals [OF kinv q(1,2), of L d]
  note se = store_key_entries [OF inv v refl k']
  have "set (entry_list (rescore L c p q d)) =
      {e \<in> set (entry_list c). fst (fst e) \<noteq> key ?k}
        \<union> (\<lambda>(m, v). ((key ?k, m), v)) ` ({e \<in> set (vals_of ?k). fst e \<noteq> m} \<union> {(m, ?new)})"
    unfolding rescore_def se(1) av q(3) ..
  also have "\<dots> = {e \<in> set (entry_list c). fst e \<noteq> (key ?k, m)} \<union> {((key ?k, m), ?new)}"
    by (subst (2) se(3)) (auto simp: image_iff)
  finally have s: "set (entry_list (rescore L c p q d)) =
      {e \<in> set (entry_list c). fst e \<noteq> (key ?k, m)} \<union> {((key ?k, m), ?new)}" .
  have inv': "cont_inv (rescore L c p q d)"
    using rescore_props [OF inv v] by blast
  show ?thesis
    unfolding score_at_def
    using map_of_update_set [OF distinct_entry_list [OF inv] distinct_entry_list [OF inv'] s]
    by (simp add: score_at_def)
qed

lemma zincrby_step_entries:
  assumes inv: "cont_inv c" and k: "NUL \<notin> set k" and m: "NUL \<notin> set m"
  shows "score_at (zincrby_step L c k d m) =
           (score_at c)((k, m) := Some (dadd L (bump (score_at c (k, m))) d))"
proof -
  let ?p = "key_place c k"
  let ?c1 = "key_insert c k"
  let ?k1 = "load_key ?c1 ?p"
  let ?c2 = "member_step ?c1 ?p m"
  let ?q = "member_place ?c1 ?k1 m"
  note ki = key_insert_props [OF inv k]
  have inv1: "cont_inv ?c1" and v1: "valid ?c1 ?p" and key1: "key ?k1 = k"
    using ki by blast+
  note ms = member_step_props [OF inv1 v1 m]
  have inv2: "cont_inv ?c2" and v2: "valid ?c2 ?p"
    using ms by blast+
  have kinv: "key_inv (msize ?c1) ?k1"
    using inv1 load_key_mem [OF v1] unfolding cont_inv_def by blast
  have ms1: "0 < msize ?c1"
    using inv1 by (simp add: cont_inv_def)
  note mv = member_insert_vals [OF kinv refl ms1 m]
  have v1': "valid (member_counted ?c1 ?k1 m) ?p"
    using v1 by (simp add: valid_def)
  have l2: "load_key ?c2 ?p = member_insert ?c1 ?k1 m"
    unfolding member_step_def using v1' by simp
  have s1: "score_at ?c1 = score_at c"
    by (rule key_insert_entries [OF inv])
  have s2: "score_at ?c2 = (score_at c)((k, m) := Some (bump (score_at c (k, m))))"
    using member_step_entries [OF inv1 v1 m] unfolding key1 s1 .
  have b: "bump (map_of (vals_of ?k1) m) = bump (score_at c (k, m))"
    using store_key_entries(2) [OF inv1 v1 refl refl, of m] unfolding key1 s1 by simp
  have key2: "key (member_insert ?c1 ?k1 m) = k"
    using ms key1 unfolding l2 by simp
  have "score_at (rescore L ?c2 ?p ?q d) =
      (score_at ?c2)((key (load_key ?c2 ?p), m) :=
         Some (dadd L (score (mbucket (load_key ?c2 ?p) ! fst ?q ! snd ?q)) d))"
    by (rule rescore_entries [OF inv2 v2]) (simp_all only: l2 mv)
  then show ?thesis
    unfolding zincrby_step_rescore [OF v1] s2 l2 key2 mv(5) b by simp
qed

lemma fold_member_step_entries:
  assumes "cont_inv c" and "valid c p" and "\<forall>m \<in> set ms. NUL \<notin> set m"
  shows "score_at (fold (\<lambda>m c'. member_step c' p m) ms c) =
           fold (\<lambda>m f. f((key (load_key c p), m) := Some (bump (f (key (load_key c p), m)))))
             ms (score_at c)"
  using assms
proof (induction ms arbitrary: c)
  case Nil
  show ?case by simp
next
  case (Cons m ms)
  let ?c1 = "member_step c p m"
  have m: "NUL \<notin> set m" and rest: "\<forall>m \<in> set ms. NUL \<notin> set m"
    using Cons.prems by auto
  note s = member_step_props [OF Cons.prems(1,2) m]
  have inv1: "cont_inv ?c1" and v1: "valid ?c1 p"
      and k1: "key (load_key ?c1 p) = key (load_key c p)"
    using s by blast+
  show ?case
    using Cons.IH [OF inv1 v1 rest] member_step_entries [OF Cons.prems(1,2) m]
    by (simp add: k1)
qed

lemma sadd_step_entries:
  assumes inv: "cont_inv c" and k: "NUL \<notin> set k" and ms: "\<forall>m \<in> set ms. NUL \<notin> set m"
  shows "score_at (sadd_step c k ms) =
           fold (\<lambda>p f. f(p := Some (bump (f p)))) (map (Pair k) ms) (score_at c)"
proof -
  note ki = key_insert_props [OF inv k]
  have inv1: "cont_inv (key_insert c k)" and v1: "valid (key_insert c k) (key_place c k)"
      and key1: "key (load_key (key_insert c k) (key_place c k)) = k"
    using ki by blast+
  show ?thesis
    unfolding sadd_step_def fold_member_step_entries [OF inv1 v1 ms] key1
      key_insert_entries [OF inv]
    by (simp add: fold_map comp_def)
qed

section \<open>The values after a stream\<close>

text \<open>
  The ZINCRBY commands of a stream, each as its (key, member) pair with the double
  \<open>strtod\<close> reads from its delta; and the values the streams of adds leave in the
  unions: an add to the set container passes through \<open>__find_member\<close> only, an add to
  the ZINCRBY container passes through \<open>__find_member\<close> and then adds the delta.
\<close>

definition zincrby_adds :: "libc \<Rightarrow> string list list \<Rightarrow> ((string \<times> string) \<times> 64 word) list" where
  "zincrby_adds L wss =
     map (\<lambda>ws. ((ws ! 1, ws ! 3), strtod L (ws ! 2)))
       (filter (\<lambda>ws. get_type (command ws) = Some TYPE_ZINCRBY) wss)"

definition found :: "(string \<times> string \<Rightarrow> 64 word option) \<Rightarrow> string \<times> string
    \<Rightarrow> string \<times> string \<Rightarrow> 64 word option" where
  "found f p = f(p := Some (bump (f p)))"

definition added :: "libc \<Rightarrow> (string \<times> string \<Rightarrow> 64 word option) \<Rightarrow> (string \<times> string) \<times> 64 word
    \<Rightarrow> string \<times> string \<Rightarrow> 64 word option" where
  "added L f a = f(fst a := Some (dadd L (bump (f (fst a))) (snd a)))"

definition sadd_scores :: "string list list \<Rightarrow> string \<times> string \<Rightarrow> 64 word option" where
  "sadd_scores wss = fold (\<lambda>p f. found f p) (sadd_pairs wss) (\<lambda>p. None)"

definition zincrby_scores :: "libc \<Rightarrow> string list list \<Rightarrow> string \<times> string \<Rightarrow> 64 word option" where
  "zincrby_scores L wss = fold (\<lambda>a f. added L f a) (zincrby_adds L wss) (\<lambda>p. None)"

lemma engine_step_entries:
  assumes inv: "engine_inv ht" and c: "clean ws"
  shows "score_at (z_cmds (engine_step L ht ws)) =
           fold (\<lambda>a f. added L f a) (zincrby_adds L [ws]) (score_at (z_cmds ht))"
    and "score_at (s_cmds (engine_step L ht ws)) =
           fold (\<lambda>p f. found f p) (sadd_pairs [ws]) (score_at (s_cmds ht))"
proof -
  consider (u) "get_type (command ws) = Some TYPE_UNSUPPORTED"
    | (z) n k d m where "get_type (command ws) = Some TYPE_ZINCRBY" "ws = [n, k, d, m]"
    | (s) n k m ms where "get_type (command ws) = Some TYPE_SADD" "ws = n # k # m # ms"
    using get_type_command_cases [of ws] by blast
  then have "score_at (z_cmds (engine_step L ht ws)) =
           fold (\<lambda>a f. added L f a) (zincrby_adds L [ws]) (score_at (z_cmds ht))
      \<and> score_at (s_cmds (engine_step L ht ws)) =
           fold (\<lambda>p f. found f p) (sadd_pairs [ws]) (score_at (s_cmds ht))"
  proof cases
    case u
    then show ?thesis
      by (simp add: engine_step_def zincrby_adds_def sadd_pairs_def)
  next
    case z
    then have nul: "NUL \<notin> set k" "NUL \<notin> set m"
      using c by (auto simp: clean_def passthru_def)
    have step: "engine_step L ht ws = ht\<lparr>z_cmds := zincrby_step L (z_cmds ht) k (strtod L d) m\<rparr>"
      using z by (simp add: engine_step_def)
    have "cont_inv (z_cmds ht)"
      using inv by (simp add: engine_inv_def)
    from zincrby_step_entries [OF this nul, of L "strtod L d"] z show ?thesis
      unfolding step by (simp add: zincrby_adds_def sadd_pairs_def added_def)
  next
    case s
    then have nul: "NUL \<notin> set k" "\<forall>x \<in> set (m # ms). NUL \<notin> set x"
      using c by (auto simp: clean_def passthru_def list_all_iff)
    have step: "engine_step L ht ws = ht\<lparr>s_cmds := sadd_step (s_cmds ht) k (m # ms)\<rparr>"
      using s by (simp add: engine_step_def)
    have "cont_inv (s_cmds ht)"
      using inv by (simp add: engine_inv_def)
    from sadd_step_entries [OF this nul] s show ?thesis
      unfolding step by (simp add: zincrby_adds_def sadd_pairs_def found_def)
  qed
  then show "score_at (z_cmds (engine_step L ht ws)) =
           fold (\<lambda>a f. added L f a) (zincrby_adds L [ws]) (score_at (z_cmds ht))"
    and "score_at (s_cmds (engine_step L ht ws)) =
           fold (\<lambda>p f. found f p) (sadd_pairs [ws]) (score_at (s_cmds ht))"
    by blast+
qed

lemma zincrby_adds_Cons: "zincrby_adds L (ws # wss) = zincrby_adds L [ws] @ zincrby_adds L wss"
  by (simp add: zincrby_adds_def)

lemma sadd_pairs_append: "sadd_pairs (ws # wss) = sadd_pairs [ws] @ sadd_pairs wss"
  by (simp add: sadd_pairs_def)

lemma engine_after_entries:
  assumes "engine_inv ht" and "list_all clean wss"
  shows "score_at (z_cmds (engine_after L ht wss)) =
           fold (\<lambda>a f. added L f a) (zincrby_adds L wss) (score_at (z_cmds ht))
       \<and> score_at (s_cmds (engine_after L ht wss)) =
           fold (\<lambda>p f. found f p) (sadd_pairs wss) (score_at (s_cmds ht))"
  using assms
proof (induction wss arbitrary: ht)
  case Nil
  show ?case
    by (simp add: engine_after_def zincrby_adds_def sadd_pairs_def)
next
  case (Cons ws wss)
  have c: "clean ws" and rest: "list_all clean wss"
    using Cons.prems by auto
  have inv1: "engine_inv (engine_step L ht ws)"
    using engine_step_props [OF Cons.prems(1) c, of L] by blast
  note s = engine_step_entries [OF Cons.prems(1) c, of L]
  note ih = Cons.IH [OF inv1 rest]
  show ?case
    unfolding engine_after_Cons zincrby_adds_Cons [of L ws wss] sadd_pairs_append [of ws wss]
      fold_append comp_def
    using ih unfolding s by simp
qed

lemma score_at_empty [simp]: "score_at (empty_container ks ms) = (\<lambda>p. None)"
  by (simp add: score_at_def entry_list_def empty_container_def)

lemma engine_after_scores:
  assumes "0 < ks" and "0 < ms" and "list_all clean wss"
  shows "score_at (z_cmds (engine_after L (empty_hash ks ms) wss)) = zincrby_scores L wss"
    and "score_at (s_cmds (engine_after L (empty_hash ks ms) wss)) = sadd_scores wss"
  using engine_after_entries [OF engine_inv_empty [OF assms(1,2)] assms(3), of L]
  by (simp_all add: zincrby_scores_def sadd_scores_def empty_hash_def)

lemma bump_Some [simp]: "bump (Some w) = incr_low w"
  by (simp add: bump_def)

lemma bump_None [simp]: "bump None = 0"
  by (simp add: bump_def)







text \<open>The commands the flush writes, as lists of arguments.\<close>

definition zincrby_commands :: "libc \<Rightarrow> cmdHashContainer \<Rightarrow> string list list" where
  "zincrby_commands L c = map (\<lambda>((k, m), v). [''ZINCRBY'', k, fmt_f L v, m]) (entry_list c)"

definition sadd_commands :: "cmdHashContainer \<Rightarrow> string list list" where
  "sadd_commands c = map (\<lambda>k. ''SADD'' # key k # map member (concat (mbucket k))) (concat (bucket c))"

lemma zincrby_bytes_entries:
  "concat (map (\<lambda>k. concat (map (zincrby_wire L k) (concat (mbucket k)))) ks) =
     concat (map redisFormatCommandArgv
       (map (\<lambda>((k, m), v). [''ZINCRBY'', k, fmt_f L v, m]) (entries_of ks)))"
  by (induction ks) (simp_all add: entries_of_Cons vals_of_def zincrby_wire_def comp_def)

lemma zincrby_bytes_commands:
  "zincrby_bytes L c = concat (map redisFormatCommandArgv (zincrby_commands L c))"
  unfolding zincrby_bytes_def zincrby_commands_def entry_list_def
  by (rule zincrby_bytes_entries)

lemma sadd_bytes_commands:
  "sadd_bytes c = concat (map redisFormatCommandArgv (sadd_commands c))"
  unfolding sadd_bytes_def sadd_commands_def sadd_wire_def
  by (simp add: comp_def)




section \<open>The output and the counts of a run\<close>

lemma word32_of_nat_unat:
  "n < 2 ^ 32 \<Longrightarrow> unat (of_nat n :: 32 word) = n"
  by (simp add: unat_of_nat)

lemma count_types_le:
  "length (filter passthru wss) + length (zincrby_pairs wss) + length (sadd_keys wss) \<le> length wss"
  by (induction wss) (auto simp: passthru_def zincrby_pairs_def sadd_keys_def)

text \<open>
  A run in output mode in which no allocation fails, on a stream of commands made of
  bulk strings in which the keys and members of the ZINCRBY and SADD commands hold no
  NUL byte and which has fewer than \<open>2^32\<close> commands and strings. On the empty stream
  the run ends with status 1 and writes nothing. Otherwise it ends with status 0 and
  writes the commands that pass through, in the order of the input, then one ZINCRBY
  command for each member node of the ZINCRBY container, then one SADD command for each
  key node of the SADD container.
\<close>

lemma run_output:
  assumes "0 < ks" and "0 < ms" and "list_all clean wss" and "stream_size wss < 2 ^ 32"
  shows "optimize L [] False ks ms (map (\<lambda>ws. Reply (command ws)) wss) =
       Some (if wss = [] then (1, None)
             else (0, Some (concat (map redisFormatCommandArgv
                     (filter passthru wss
                      @ zincrby_commands L (z_cmds (engine_after L (empty_hash ks ms) wss))
                      @ sadd_commands (s_cmds (engine_after L (empty_hash ks ms) wss)))))))"
proof -
  let ?E = "engine_after L (empty_hash ks ms) wss"
  let ?ctx = "ctx0 False ks ms"
  have ok: "container_ok (z_cmds (engine_after L (cmd_hash ?ctx) wss))"
      "container_ok (s_cmds (engine_after L (cmd_hash ?ctx) wss))"
    unfolding cmd_hash_ctx0 using engine_after_ok [OF assms, of L] by simp_all
  have n: "\<not> stats ?ctx"
    by (simp add: ctx0_clean)
  have "length wss < 2 ^ 32"
    using assms(4) length_le_stream_size [of wss] by simp
  then have "unat (of_nat (length wss) :: 32 word) = length wss"
    by (rule word32_of_nat_unat)
  then have nz: "ctx_cmd_count ?ctx + of_nat (length wss) = 0 \<longleftrightarrow> wss = []"
    by (auto simp: ctx0_clean)
  have "run_main L [] ?ctx (map (\<lambda>ws. Reply (command ws)) wss) =
      Some (if wss = [] then (1, None) else (0, Some (passthru_bytes wss @ agg_bytes L ?E)))"
    unfolding run_main_Nil [OF ctx0_clean(1,2) ok n] cmd_hash_ctx0
    using nz by (simp add: ctx0_clean)
  then show ?thesis
    using assms(1,2)
    by (simp add: optimize_def initContext_Nil passthru_bytes_def agg_bytes_def
        zincrby_bytes_commands sadd_bytes_commands)
qed

text \<open>
  The counters after such a run, in output mode as in statistics mode: \<open>cmd_count\<close> of
  the context is the number of commands of the stream, and \<open>cmd_count\<close> of the command
  buffer is the number of commands that pass through, plus the number of distinct
  (key, member) pairs of the ZINCRBY commands, plus the number of distinct keys of the
  SADD commands.
\<close>

lemma run_counts:
  assumes "0 < ks" and "0 < ms" and "list_all clean wss" and "stream_size wss < 2 ^ 32"
  shows "\<exists>ctx1 ctx2.
       processBufferFile L [] (ctx0 st ks ms) (map (\<lambda>ws. Reply (command ws)) wss) = Some (0, ctx1, [])
     \<and> appendAggCommands L [] ctx1 = Some (0, ctx2, [])
     \<and> unat (ctx_cmd_count ctx2) = length wss
     \<and> unat (cmd_count (cmd_buffer ctx2)) =
          length (filter passthru wss) + card (set (zincrby_pairs wss)) + card (set (sadd_keys wss))
     \<and> unat (cmd_count (cmd_buffer ctx2)) \<le> unat (ctx_cmd_count ctx2)"
proof -
  let ?E = "engine_after L (empty_hash ks ms) wss"
  let ?ctx = "ctx0 st ks ms"
  let ?np = "length (filter passthru wss)"
  let ?nz = "card (set (zincrby_pairs wss))"
  let ?ns = "card (set (sadd_keys wss))"
  note e = engine_after_empty [OF assms(1-3), of L]
  note c = engine_after_counts [OF assms(1-3), of L]
  note ok = engine_after_ok [OF assms, of L]
  have len: "length wss < 2 ^ 32"
    using assms(4) length_le_stream_size [of wss] by simp
  have le: "?np + ?nz + ?ns \<le> length wss"
    using count_types_le [of wss] card_length [of "zincrby_pairs wss"]
      card_length [of "sadd_keys wss"] by simp
  obtain sz1 where p: "processBufferFile L [] ?ctx (map (\<lambda>ws. Reply (command ws)) wss) =
     Some (0, ?ctx\<lparr>cmd_hash := ?E,
                  cmd_buffer := buffered (cmd_buffer ?ctx) (passthru_bytes wss) (of_nat ?np) sz1,
                  ctx_cmd_count := ctx_cmd_count ?ctx + of_nat (length wss)\<rparr>, [])"
    using processBufferFile_Nil [of ?ctx L wss, OF ctx0_clean(1,2)]
    by (auto simp: engine_after_def passthru_bytes_def cmd_hash_ctx0)
  let ?ctx1 = "?ctx\<lparr>cmd_hash := ?E,
                  cmd_buffer := buffered (cmd_buffer ?ctx) (passthru_bytes wss) (of_nat ?np) sz1,
                  ctx_cmd_count := ctx_cmd_count ?ctx + of_nat (length wss)\<rparr>"
  have cnt: "cmdHashGetCount ?E = of_nat ?nz + of_nat ?ns"
    using e(1) c by (simp add: cmdHashGetCount_def engine_inv_def cont_inv_def)
  have "\<exists>ctx2. appendAggCommands L [] ?ctx1 = Some (0, ctx2, [])
      \<and> ctx_cmd_count ctx2 = of_nat (length wss)
      \<and> cmd_count (cmd_buffer ctx2) = of_nat (?np + ?nz + ?ns)"
  proof (cases st)
    case True
    then show ?thesis
      by (simp add: appendAggCommands_def ctx0_clean cnt ctx0_def empty_buffer_def)
  next
    case False
    then have "\<not> stats ?ctx1"
      by (simp add: ctx0_clean)
    from appendAggCommands_Nil [of ?ctx1 L, OF _ _ this] ok
    obtain sz sz' where "appendAggCommands L [] ?ctx1 =
       Some (0, ?ctx1\<lparr>cmd_hash := appended (emptied (cmd_hash ?ctx1)) (agg_bytes L (cmd_hash ?ctx1)) sz,
                  cmd_buffer := buffered (cmd_buffer ?ctx1) (agg_bytes L (cmd_hash ?ctx1))
                     (cmdHashGetCount (cmd_hash ?ctx1)) sz'\<rparr>, [])"
      by auto
    then show ?thesis
      by (simp add: cnt ctx0_def empty_buffer_def)
  qed
  then obtain ctx2 where a: "appendAggCommands L [] ?ctx1 = Some (0, ctx2, [])"
      "ctx_cmd_count ctx2 = of_nat (length wss)"
      "cmd_count (cmd_buffer ctx2) = of_nat (?np + ?nz + ?ns)"
    by blast
  have u1: "unat (ctx_cmd_count ctx2) = length wss"
    unfolding a(2) using len by (rule word32_of_nat_unat)
  have u2: "unat (cmd_count (cmd_buffer ctx2)) = ?np + ?nz + ?ns"
    unfolding a(3) using le len by (intro word32_of_nat_unat) simp
  from p a(1) u1 u2 le show ?thesis
    by auto
qed

text \<open>The entries of a container that holds one pair.\<close>

lemma distinct_singleton:
  assumes "distinct xs" and "set xs = {x}"
  shows "xs = [x]"
proof (cases xs)
  case Nil
  with assms show ?thesis by simp
next
  case (Cons y ys)
  with assms have "y = x" "set ys \<subseteq> {x}" "x \<notin> set ys"
    by auto
  then have "ys = []"
    by (cases ys) auto
  with Cons \<open>y = x\<close> show ?thesis by simp
qed

lemma entry_list_single:
  assumes "cont_inv c" and "set (pair_list c) = {p}" and "score_at c p = Some v"
  shows "entry_list c = [(p, v)]"
proof -
  have "pair_list c = [p]"
    using distinct_pair_list [OF assms(1)] assms(2) by (rule distinct_singleton)
  then have "map fst (entry_list c) = [p]"
    by (simp add: map_fst_entry_list)
  then obtain w where w: "entry_list c = [(p, w)]"
    by (cases "entry_list c") auto
  with assms(3) show ?thesis
    by (simp add: score_at_def)
qed

lemma sadd_commands_none:
  assumes "set (key_list c) = {}"
  shows "sadd_commands c = []"
  using assms by (simp add: key_list_def sadd_commands_def)

section \<open>The score of a member that is added to twice\<close>

lemma clean_zincrby:
  "NUL \<notin> set k \<Longrightarrow> NUL \<notin> set d \<Longrightarrow> NUL \<notin> set m \<Longrightarrow> clean [''ZINCRBY'', k, d, m]"
  by (simp add: clean_def)

lemma zincrby_only:
  assumes "0 < ks" and "0 < ms" and "list_all clean wss" and "stream_size wss < 2 ^ 32"
    and "filter passthru wss = []" and "sadd_keys wss = []" and "set (zincrby_pairs wss) = {p}"
    and "zincrby_scores L wss p = Some v"
  shows "optimize L [] False ks ms (map (\<lambda>ws. Reply (command ws)) wss) =
       Some (0, Some (redisFormatCommandArgv [''ZINCRBY'', fst p, fmt_f L v, snd p]))"
proof -
  let ?E = "engine_after L (empty_hash ks ms) wss"
  note e = engine_after_empty [OF assms(1-3), of L]
  have ne: "wss \<noteq> []"
    using assms(7) by (auto simp: zincrby_pairs_def)
  have z: "cont_inv (z_cmds ?E)"
    using e(1) by (simp add: engine_inv_def)
  have "score_at (z_cmds ?E) p = Some v"
    using engine_after_scores(1) [OF assms(1-3), of L] assms(8) by simp
  then have "entry_list (z_cmds ?E) = [(p, v)]"
    using entry_list_single [OF z] e(2) assms(7) by simp
  then have zc: "zincrby_commands L (z_cmds ?E) = [[''ZINCRBY'', fst p, fmt_f L v, snd p]]"
    by (simp add: zincrby_commands_def case_prod_unfold)
  have sc: "sadd_commands (s_cmds ?E) = []"
    using e(3) assms(6) by (simp add: sadd_commands_none)
  show ?thesis
    unfolding run_output [OF assms(1-4)] zc sc assms(5) using ne by simp
qed

text \<open>
  C1, as the code has it. Take a run in output mode in which no allocation fails, and a
  stream of two ZINCRBY commands on the same key \<open>k\<close> and member \<open>m\<close> with the deltas
  \<open>d1\<close> and \<open>d2\<close>, none of the four with a NUL byte. The run writes one ZINCRBY command
  for (\<open>k\<close>, \<open>m\<close>), and its value is not the sum of the two deltas: the first add puts
  \<open>0 + d1\<close> into the union of the new member node, the lookup of the second add finds
  the node and increments \<open>hits\<close>, that is the low 32 bits of that double, and then
  \<open>d2\<close> is added to what is left.
\<close>

theorem zincrby_twice:
  assumes "0 < ks" and "0 < ms" and "NUL \<notin> set k" and "NUL \<notin> set m"
    and "NUL \<notin> set d1" and "NUL \<notin> set d2"
  shows "optimize L [] False ks ms
           [Reply (command [''ZINCRBY'', k, d1, m]), Reply (command [''ZINCRBY'', k, d2, m])] =
         Some (0, Some (redisFormatCommandArgv
           [''ZINCRBY'', k,
            fmt_f L (dadd L (incr_low (dadd L 0 (strtod L d1))) (strtod L d2)), m]))"
proof -
  let ?W = "[[''ZINCRBY'', k, d1, m], [''ZINCRBY'', k, d2, m]]"
  have c: "list_all clean ?W"
    using assms by (simp add: clean_zincrby)
  have s: "stream_size ?W < 2 ^ 32"
    by (simp add: stream_size_def)
  have p: "filter passthru ?W = []" "sadd_keys ?W = []" "set (zincrby_pairs ?W) = {(k, m)}"
    by (simp_all add: passthru_def sadd_keys_def zincrby_pairs_def get_type_zincrby)
  have v: "zincrby_scores L ?W (k, m) =
      Some (dadd L (incr_low (dadd L 0 (strtod L d1))) (strtod L d2))"
    by (simp add: zincrby_scores_def zincrby_adds_def added_def get_type_zincrby)
  from zincrby_only [OF assms(1,2) c s p v] show ?thesis
    by simp
qed

text \<open>
  With the deltas 1.0000009536743162 (the double \<open>0x3FF00000FFFFFFFF\<close>) and 0 the run
  writes ZINCRBY k 1.000000 m: the increment of \<open>hits\<close> wraps the low half of the
  score to zero. With the same deltas in the other order it writes ZINCRBY k 1.000001 m.
\<close>

theorem zincrby_twice_witness:
  "optimize libc_sample [] False 1 1
     [Reply (command [''ZINCRBY'', ''k'', ''1.0000009536743162'', ''m'']),
      Reply (command [''ZINCRBY'', ''k'', ''0'', ''m''])] =
     Some (0, Some (redisFormatCommandArgv [''ZINCRBY'', ''k'', ''1.000000'', ''m'']))
   \<and> optimize libc_sample [] False 1 1
     [Reply (command [''ZINCRBY'', ''k'', ''0'', ''m'']),
      Reply (command [''ZINCRBY'', ''k'', ''1.0000009536743162'', ''m''])] =
     Some (0, Some (redisFormatCommandArgv [''ZINCRBY'', ''k'', ''1.000001'', ''m'']))"
proof -
  have a: "(0::nat) < 1"
    by simp
  have n: "NUL \<notin> set ''k''" "NUL \<notin> set ''m''" "NUL \<notin> set ''1.0000009536743162''"
      "NUL \<notin> set ''0''"
    by (simp_all add: NUL_def)
  have 1: "fmt_f libc_sample (dadd libc_sample
       (incr_low (dadd libc_sample 0 (strtod libc_sample ''1.0000009536743162'')))
       (strtod libc_sample ''0'')) = ''1.000000''"
    by (simp add: sample_defs incr_low_def mask_eq_exp_minus_1)
  have 2: "fmt_f libc_sample (dadd libc_sample
       (incr_low (dadd libc_sample 0 (strtod libc_sample ''0'')))
       (strtod libc_sample ''1.0000009536743162'')) = ''1.000001''"
    by (simp add: sample_defs incr_low_def mask_eq_exp_minus_1)
  from zincrby_twice [OF a a n(1,2,3,4), of libc_sample]
    zincrby_twice [OF a a n(1,2,4,3), of libc_sample]
  show ?thesis
    unfolding 1 2 by simp
qed

section \<open>A delta that is no number is merged\<close>

text \<open>
  C4, as the code has it. The delta of a ZINCRBY command is handed to \<open>strtod\<close> and
  nothing checks what \<open>strtod\<close> made of it. Whatever the delta argument is, when no
  allocation fails and no earlier failure has left the container corrupt, \<open>cmdHashAdd\<close>
  returns 0 and has merged the command with the double \<open>strtod\<close> returns. A run in output
  mode in which no allocation fails, on a stream that is not empty, has fewer than
  \<open>2^32\<close> commands and strings and holds no NUL byte in the arguments of its ZINCRBY
  and SADD commands, ends with status 0 and writes an output, whatever the deltas
  are. When the stream is one ZINCRBY command, the output is that command with the
  value \<open>0 + strtod(delta)\<close> printed by \<open>%f\<close>.
\<close>

theorem zincrby_delta_unchecked:
  "(\<not> corrupt (z_cmds ht) \<longrightarrow>
      cmdHashAdd L [] ht (command [''ZINCRBY'', k, d, m]) =
        Some (0, ht\<lparr>z_cmds := zincrby_step L (z_cmds ht) k (strtod L d) m\<rparr>, []))
   \<and> (0 < ks \<and> 0 < ms \<and> list_all clean wss \<and> wss \<noteq> [] \<and> stream_size wss < 2 ^ 32 \<longrightarrow>
        (\<exists>out. optimize L [] False ks ms (map (\<lambda>ws. Reply (command ws)) wss) = Some (0, Some out)))
   \<and> (0 < ks \<and> 0 < ms \<and> NUL \<notin> set k \<and> NUL \<notin> set d \<and> NUL \<notin> set m \<longrightarrow>
        optimize L [] False ks ms [Reply (command [''ZINCRBY'', k, d, m])] =
          Some (0, Some (redisFormatCommandArgv
            [''ZINCRBY'', k, fmt_f L (dadd L 0 (strtod L d)), m])))"
proof (intro conjI impI)
  assume "\<not> corrupt (z_cmds ht)"
  then show "cmdHashAdd L [] ht (command [''ZINCRBY'', k, d, m]) =
        Some (0, ht\<lparr>z_cmds := zincrby_step L (z_cmds ht) k (strtod L d) m\<rparr>, [])"
    by (simp add: cmdHashAdd_def get_type_command lit_zincrby hash_zincrby_cmd_Nil)
next
  assume "0 < ks \<and> 0 < ms \<and> list_all clean wss \<and> wss \<noteq> [] \<and> stream_size wss < 2 ^ 32"
  then have a: "0 < ks" "0 < ms" "list_all clean wss" "stream_size wss < 2 ^ 32" and ne: "wss \<noteq> []"
    by simp_all
  show "\<exists>out. optimize L [] False ks ms (map (\<lambda>ws. Reply (command ws)) wss) = Some (0, Some out)"
    unfolding run_output [OF a] using ne by simp
next
  assume "0 < ks \<and> 0 < ms \<and> NUL \<notin> set k \<and> NUL \<notin> set d \<and> NUL \<notin> set m"
  then have a: "0 < ks" "0 < ms" and n: "NUL \<notin> set k" "NUL \<notin> set d" "NUL \<notin> set m"
    by simp_all
  let ?W = "[[''ZINCRBY'', k, d, m]]"
  have c: "list_all clean ?W"
    using n by (simp add: clean_zincrby)
  have s: "stream_size ?W < 2 ^ 32"
    by (simp add: stream_size_def)
  have p: "filter passthru ?W = []" "sadd_keys ?W = []" "set (zincrby_pairs ?W) = {(k, m)}"
    by (simp_all add: passthru_def sadd_keys_def zincrby_pairs_def get_type_zincrby)
  have v: "zincrby_scores L ?W (k, m) = Some (dadd L 0 (strtod L d))"
    by (simp add: zincrby_scores_def zincrby_adds_def added_def get_type_zincrby)
  from zincrby_only [OF a c s p v]
  show "optimize L [] False ks ms [Reply (command [''ZINCRBY'', k, d, m])] =
          Some (0, Some (redisFormatCommandArgv
            [''ZINCRBY'', k, fmt_f L (dadd L 0 (strtod L d)), m]))"
    by simp
qed

text \<open>
  The delta 5abc, of which \<open>strtod\<close> reads 5: the command is merged with 5, and the run
  on it ends with status 0 and writes ZINCRBY k 5.000000 m.
\<close>

theorem zincrby_delta_unchecked_witness:
  "cmdHashAdd libc_sample [] (empty_hash 1 1) (command [''ZINCRBY'', ''k'', ''5abc'', ''m'']) =
     Some (0, (empty_hash 1 1)\<lparr>z_cmds :=
        zincrby_step libc_sample (z_cmds (empty_hash 1 1)) ''k'' 0x4014000000000000 ''m''\<rparr>, [])
   \<and> (\<exists>out. optimize libc_sample [] False 1 1
         (map (\<lambda>ws. Reply (command ws)) [[''ZINCRBY'', ''k'', ''5abc'', ''m'']]) = Some (0, Some out))
   \<and> optimize libc_sample [] False 1 1 [Reply (command [''ZINCRBY'', ''k'', ''5abc'', ''m''])] =
       Some (0, Some (redisFormatCommandArgv [''ZINCRBY'', ''k'', ''5.000000'', ''m'']))"
proof -
  have c: "\<not> corrupt (z_cmds (empty_hash 1 1))"
    by (simp add: empty_hash_def empty_container_def)
  have a: "(0::nat) < 1"
    by simp
  have n: "NUL \<notin> set ''k''" "NUL \<notin> set ''5abc''" "NUL \<notin> set ''m''"
    by (simp_all add: NUL_def)
  have cl: "list_all clean [[''ZINCRBY'', ''k'', ''5abc'', ''m'']]"
    using n by (simp add: clean_zincrby)
  have s: "stream_size [[''ZINCRBY'', ''k'', ''5abc'', ''m'']] < 2 ^ 32"
    by (simp add: stream_size_def)
  have 1: "strtod libc_sample ''5abc'' = 0x4014000000000000"
    by (simp add: sample_defs)
  have 2: "fmt_f libc_sample (dadd libc_sample 0 (strtod libc_sample ''5abc'')) = ''5.000000''"
    by (simp add: sample_defs)
  note t = zincrby_delta_unchecked [of "empty_hash 1 1" libc_sample "''k''" "''5abc''" "''m''" 1 1
      "[[''ZINCRBY'', ''k'', ''5abc'', ''m'']]"]
  from t c have "cmdHashAdd libc_sample [] (empty_hash 1 1) (command [''ZINCRBY'', ''k'', ''5abc'', ''m'']) =
     Some (0, (empty_hash 1 1)\<lparr>z_cmds :=
        zincrby_step libc_sample (z_cmds (empty_hash 1 1)) ''k'' 0x4014000000000000 ''m''\<rparr>, [])"
    unfolding 1 by blast
  moreover from t a cl s have "\<exists>out. optimize libc_sample [] False 1 1
         (map (\<lambda>ws. Reply (command ws)) [[''ZINCRBY'', ''k'', ''5abc'', ''m'']]) = Some (0, Some out)"
    by blast
  moreover from t a n have "optimize libc_sample [] False 1 1
       [Reply (command [''ZINCRBY'', ''k'', ''5abc'', ''m''])] =
       Some (0, Some (redisFormatCommandArgv [''ZINCRBY'', ''k'', ''5.000000'', ''m'']))"
    unfolding 2 by blast
  ultimately show ?thesis
    by blast
qed

section \<open>The hit count of a member of a set\<close>









section \<open>A pass-through command missing from the output\<close>

text \<open>
  C5 at a run in which the eighth allocation fails (the seven before it build the
  context): the \<open>malloc\<close> of \<open>argv\<close> in \<open>cmdBufferAddReply\<close> for the first command of the
  stream SET x 1, ZINCRBY z 1 m, SET y 2. \<open>processBufferFile\<close> drops the result of
  \<open>cmdBufferAddReply\<close>, the run goes on and ends with status 0, and the output is SET y 2
  followed by ZINCRBY z 1.000000 m: of the two commands that pass through, the first is
  not in it.
\<close>

theorem passthru_missing_from_output:
  "optimize libc_sample [True, True, True, True, True, True, True, False] False 1 1
     [Reply (command [''SET'', ''x'', ''1'']), Reply (command [''ZINCRBY'', ''z'', ''1'', ''m'']),
      Reply (command [''SET'', ''y'', ''2''])] =
     Some (0, Some (redisFormatCommandArgv [''SET'', ''y'', ''2'']
                    @ redisFormatCommandArgv [''ZINCRBY'', ''z'', ''1.000000'', ''m'']))"
proof -
  let ?ctx = "(ctx0 False 1 1)\<lparr>ctx_cmd_count := ctx_cmd_count (ctx0 False 1 1) + 1\<rparr>"
  let ?wss = "[[''ZINCRBY'', ''z'', ''1'', ''m''], [''SET'', ''y'', ''2'']]"
  let ?E = "engine_after libc_sample (empty_hash 1 1) ?wss"
  have h: "cmd_hash ?ctx = empty_hash 1 1"
    by (simp add: ctx0_def)
  have cl: "\<not> corrupt (z_cmds (cmd_hash ?ctx))" "\<not> corrupt (s_cmds (cmd_hash ?ctx))"
      "\<not> stats ?ctx"
    by (simp_all add: ctx0_def empty_hash_def empty_container_def)
  have a: "(0::nat) < 1"
    by simp
  have c: "list_all clean ?wss"
    by (simp add: clean_def passthru_def get_type_set NUL_def)
  have s: "stream_size ?wss < 2 ^ 32"
    by (simp add: stream_size_def)
  note e = engine_after_empty [OF a a c, of libc_sample]
  have ok: "container_ok (z_cmds (engine_after libc_sample (cmd_hash ?ctx) ?wss))"
      "container_ok (s_cmds (engine_after libc_sample (cmd_hash ?ctx) ?wss))"
    unfolding h using engine_after_ok [OF a a c s, of libc_sample] by simp_all
  have p: "passthru_bytes ?wss = redisFormatCommandArgv [''SET'', ''y'', ''2'']"
    by (simp add: passthru_bytes_def passthru_def get_type_set get_type_zincrby)
  have z: "cont_inv (z_cmds ?E)"
    using e(1) by (simp add: engine_inv_def)
  have "score_at (z_cmds ?E) (''z'', ''m'') = Some 0x3FF0000000000000"
    unfolding engine_after_scores(1) [OF a a c, of libc_sample]
    by (simp add: zincrby_scores_def zincrby_adds_def added_def get_type_zincrby get_type_set
        sample_defs)
  moreover have "set (pair_list (z_cmds ?E)) = {(''z'', ''m'')}"
    unfolding e(2) by (simp add: zincrby_pairs_def get_type_zincrby get_type_set)
  ultimately have "entry_list (z_cmds ?E) = [((''z'', ''m''), 0x3FF0000000000000)]"
    using entry_list_single [OF z] by simp
  then have zc: "zincrby_commands libc_sample (z_cmds ?E) = [[''ZINCRBY'', ''z'', ''1.000000'', ''m'']]"
    by (simp add: zincrby_commands_def sample_defs)
  have "set (key_list (s_cmds ?E)) = {}"
    unfolding e(3) by (simp add: sadd_keys_def get_type_zincrby get_type_set)
  then have sc: "sadd_commands (s_cmds ?E) = []"
    by (rule sadd_commands_none)
  have g: "agg_bytes libc_sample (engine_after libc_sample (cmd_hash ?ctx) ?wss) =
      redisFormatCommandArgv [''ZINCRBY'', ''z'', ''1.000000'', ''m'']"
    unfolding h agg_bytes_def zincrby_bytes_commands sadd_bytes_commands zc sc by simp
  have cnt: "ctx_cmd_count ?ctx + of_nat (length ?wss) \<noteq> 0" "buf (cmd_buffer ?ctx) = []"
    by (simp_all add: ctx0_def empty_buffer_def)
  have "run_main libc_sample [False] (ctx0 False 1 1)
          [Reply (command [''SET'', ''x'', ''1'']), Reply (command [''ZINCRBY'', ''z'', ''1'', ''m'']),
           Reply (command [''SET'', ''y'', ''2''])] =
        run_main libc_sample [] ?ctx (map (\<lambda>ws. Reply (command ws)) ?wss)"
    by (rule run_main_step)
       (simp only: processBufferFile_passthru_failed [OF get_type_set] list.map)
  also have "\<dots> = Some (0, Some (redisFormatCommandArgv [''SET'', ''y'', ''2'']
                    @ redisFormatCommandArgv [''ZINCRBY'', ''z'', ''1.000000'', ''m'']))"
    unfolding run_main_Nil [OF cl(1,2) ok cl(3)] p g using cnt by simp
  finally show ?thesis
    by (simp add: optimize_def initContext_7)
qed

section \<open>Keys that differ behind a NUL byte are counted once\<close>


end
